theory Spec2Isabelle
  imports Main "HOL-Library.Char_ord" "HOL-Library.List_Lexorder"
begin

section \<open>Strings and character classes\<close>

text \<open>
  A Python \<open>str\<close> is modelled as a \<open>string\<close> whose characters are the code points
  below 256. On that range the classes below are the ones Python uses: \<open>\d\<close> matches
  the ten ASCII digits only, \<open>\s\<close> and \<open>str.strip()\<close> use the same whitespace set,
  and \<open>str.lower()\<close> moves the 26 ASCII capitals and the Latin-1 capitals
  (0xC0..0xDE without 0xD7) up by 32. The two curly apostrophes U+2018 and U+2019 of
  the punctuation class lie outside this range and so have no character here.
\<close>

definition isdigit :: "char \<Rightarrow> bool" where
  "isdigit c \<longleftrightarrow> CHR ''0'' \<le> c \<and> c \<le> CHR ''9''"

definition isspace :: "char \<Rightarrow> bool" where
  "isspace c \<longleftrightarrow> (CHR 0x09 \<le> c \<and> c \<le> CHR 0x0D) \<or> (CHR 0x1C \<le> c \<and> c \<le> CHR 0x20)
     \<or> c = CHR 0x85 \<or> c = CHR 0xA0"

definition isupper_ascii :: "char \<Rightarrow> bool" where
  "isupper_ascii c \<longleftrightarrow> CHR ''A'' \<le> c \<and> c \<le> CHR ''Z''"

definition islower_ascii :: "char \<Rightarrow> bool" where
  "islower_ascii c \<longleftrightarrow> CHR ''a'' \<le> c \<and> c \<le> CHR ''z''"

definition isupper :: "char \<Rightarrow> bool" where
  "isupper c \<longleftrightarrow> isupper_ascii c \<or> (CHR 0xC0 \<le> c \<and> c \<le> CHR 0xDE \<and> c \<noteq> CHR 0xD7)"

definition lower_char :: "char \<Rightarrow> char" where
  "lower_char c = (if isupper c then char_of (of_char c + (32::nat)) else c)"

definition lower :: "string \<Rightarrow> string" where
  "lower s = map lower_char s"

text \<open>Matching one pattern letter under \<open>re.IGNORECASE\<close>.\<close>

definition ieq :: "char \<Rightarrow> char \<Rightarrow> bool" where
  "ieq p c \<longleftrightarrow> lower_char c = lower_char p"

text \<open>\<open>.\<close> without \<open>re.DOTALL\<close>: any character except the newline.\<close>

definition isdot :: "char \<Rightarrow> bool" where
  "isdot c \<longleftrightarrow> c \<noteq> CHR 0x0A"

definition strip :: "string \<Rightarrow> string" where
  "strip s = rev (dropWhile isspace (rev (dropWhile isspace s)))"

definition rstrip_chars :: "char set \<Rightarrow> string \<Rightarrow> string" where
  "rstrip_chars cs s = rev (dropWhile (\<lambda>c. c \<in> cs) (rev s))"

definition replace_char :: "char \<Rightarrow> char \<Rightarrow> string \<Rightarrow> string" where
  "replace_char a b s = map (\<lambda>c. if c = a then b else c) s"

text \<open>\<open>s.rsplit('.', 1)[0]\<close>: the part before the last dot, the whole string without one.\<close>

definition rsplit_dot_head :: "string \<Rightarrow> string" where
  "rsplit_dot_head s =
     (if CHR ''.'' \<in> set s then rev (tl (dropWhile (\<lambda>c. c \<noteq> CHR ''.'') (rev s))) else s)"

section \<open>Integers and their decimal text\<close>

datatype error = ValueError | KeyError | OverflowError

definition digit_val :: "char \<Rightarrow> int" where
  "digit_val c = int (of_char c) - 48"

definition digits_val :: "string \<Rightarrow> int" where
  "digits_val s = foldl (\<lambda>a c. 10 * a + digit_val c) 0 s"

fun valid_digits :: "string \<Rightarrow> bool" where
  "valid_digits [] = False"
| "valid_digits [c] = isdigit c"
| "valid_digits (c # d # s) =
     (isdigit c \<and> (if d = CHR ''_'' then valid_digits s else valid_digits (d # s)))"

text \<open>
  CPython converts between \<open>int\<close> and decimal text only up to a number of digits,
  \<open>sys.int_max_str_digits\<close>, 4300 unless the interpreter is configured otherwise; beyond
  it both \<open>int(s)\<close> and \<open>str(i)\<close> raise \<open>ValueError\<close>.
\<close>

definition max_str_digits :: nat where
  "max_str_digits = 4300"

text \<open>
  \<open>int(s)\<close> on a string: surrounding whitespace and one sign are allowed, single
  underscores may separate digits, anything else raises \<open>ValueError\<close>, and so do more
  digits than the limit.
\<close>

definition py_int :: "string \<Rightarrow> error + int" where
  "py_int s =
     (let t = strip s;
          neg = (t \<noteq> [] \<and> hd t = CHR ''-'');
          u = (if t \<noteq> [] \<and> (hd t = CHR ''-'' \<or> hd t = CHR ''+'') then tl t else t);
          ds = filter (\<lambda>c. c \<noteq> CHR ''_'') u
      in if \<not> valid_digits u then Inl ValueError
         else if max_str_digits < length ds then Inl ValueError
         else Inr ((if neg then - 1 else 1) * digits_val ds))"

function str_digits :: "int \<Rightarrow> string" where
  "str_digits i =
     (if i < 10 then [char_of (48 + i)] else str_digits (i div 10) @ [char_of (48 + i mod 10)])"
  by pat_completeness auto
termination
  by (relation "measure nat") auto

text \<open>The decimal text of an integer.\<close>

definition decimal :: "int \<Rightarrow> string" where
  "decimal i = (if i < 0 then CHR ''-'' # str_digits (- i) else str_digits i)"

text \<open>\<open>str(i)\<close>, which the f-string applies to \<open>number\<close>.\<close>

definition py_str :: "int \<Rightarrow> error + string" where
  "py_str i =
     (if max_str_digits < length (str_digits \<bar>i\<bar>) then Inl ValueError else Inr (decimal i))"

section \<open>Regular expressions\<close>

text \<open>
  The fragment of Python's \<open>re\<close> the program uses: anchors, single character classes,
  greedy repetition of a class, sequence and ordered alternation. \<open>rmatch r b s\<close> lists,
  in the backtracking matcher's order of preference, what is left of \<open>s\<close> after each way
  of matching \<open>r\<close> at its front; \<open>b\<close> says whether the front of \<open>s\<close> is the beginning of
  the whole subject string.
\<close>

datatype rx =
    REps
  | RBol
  | REol
  | ROne "char \<Rightarrow> bool"
  | RStar "char \<Rightarrow> bool"
  | RSeq rx rx
  | RAlt rx rx

fun greedy :: "(char \<Rightarrow> bool) \<Rightarrow> string \<Rightarrow> string list" where
  "greedy P [] = [[]]"
| "greedy P (c # cs) = (if P c then greedy P cs @ [c # cs] else [c # cs])"

fun rmatch :: "rx \<Rightarrow> bool \<Rightarrow> string \<Rightarrow> string list" where
  "rmatch REps b s = [s]"
| "rmatch RBol b s = (if b then [s] else [])"
| "rmatch REol b s = (if s = [] \<or> s = [CHR 0x0A] then [s] else [])"
| "rmatch (ROne P) b s = (case s of [] \<Rightarrow> [] | c # cs \<Rightarrow> if P c then [cs] else [])"
| "rmatch (RStar P) b s = greedy P s"
| "rmatch (RSeq r1 r2) b s =
     concat (map (\<lambda>t. rmatch r2 (b \<and> length t = length s) t) (rmatch r1 b s))"
| "rmatch (RAlt r1 r2) b s = rmatch r1 b s @ rmatch r2 b s"

definition rplus :: "(char \<Rightarrow> bool) \<Rightarrow> rx" where
  "rplus P = RSeq (ROne P) (RStar P)"

fun rlit_i :: "string \<Rightarrow> rx" where
  "rlit_i [] = REps"
| "rlit_i (c # cs) = RSeq (ROne (ieq c)) (rlit_i cs)"

text \<open>The text matched at the front of \<open>s\<close>, if the pattern matches there.\<close>

definition match_at :: "rx \<Rightarrow> bool \<Rightarrow> string \<Rightarrow> string option" where
  "match_at r b s =
     (case rmatch r b s of [] \<Rightarrow> None | t # _ \<Rightarrow> Some (take (length s - length t) s))"

text \<open>\<open>re.search(r, s)\<close>: the leftmost match, as \<open>match.group()\<close>.\<close>

fun search_from :: "rx \<Rightarrow> bool \<Rightarrow> string \<Rightarrow> string option" where
  "search_from r b [] = match_at r b []"
| "search_from r b (c # cs) =
     (case match_at r b (c # cs) of Some m \<Rightarrow> Some m | None \<Rightarrow> search_from r False cs)"

definition re_search :: "rx \<Rightarrow> string \<Rightarrow> string option" where
  "re_search r s = search_from r True s"

text \<open>
  \<open>re.sub(r, repl, s)\<close>: every match found from left to right is replaced, the search
  going on behind the match. The replacement is a function of the matched text. A
  pattern that matches the empty string is replaced there and the next character is
  copied; no pattern of this program can match the empty string.
\<close>

function sub_from :: "rx \<Rightarrow> (string \<Rightarrow> string) \<Rightarrow> bool \<Rightarrow> string \<Rightarrow> string" where
  "sub_from r f b s =
     (case match_at r b s of
        None \<Rightarrow> (case s of [] \<Rightarrow> [] | c # cs \<Rightarrow> c # sub_from r f False cs)
      | Some m \<Rightarrow>
          (if m = [] then f m @ (case s of [] \<Rightarrow> [] | c # cs \<Rightarrow> c # sub_from r f False cs)
           else f m @ sub_from r f False (drop (length m) s)))"
  by pat_completeness auto
termination
  by (relation "measure (\<lambda>(r, f, b, s). length s)") (auto simp: match_at_def split: list.splits)

definition re_sub :: "rx \<Rightarrow> (string \<Rightarrow> string) \<Rightarrow> string \<Rightarrow> string" where
  "re_sub r f s = sub_from r f True s"

section \<open>clean_filename\<close>

definition pat_number :: rx where
  "pat_number = RSeq RBol (rplus isdigit)"

definition pat_prefix :: rx where
  "pat_prefix = RSeq RBol (RSeq (rplus isdigit) (RSeq (RStar isspace)
     (RStar (\<lambda>c. c = CHR ''-'' \<or> c = CHR ''_'' \<or> isspace c))))"

definition pat_oclock :: rx where
  "pat_oclock = RSeq RBol (RSeq (rplus isdigit) (RSeq (rplus isspace)
     (RSeq (rlit_i ''O'Clock'') (rplus isspace))))"

definition instrument :: rx where
  "instrument =
     RAlt (RSeq (rlit_i ''alto'') (RStar isdigit))
    (RAlt (rlit_i ''flute'')
    (RAlt (rlit_i ''drums'')
    (RAlt (rlit_i ''bass'')
    (RAlt (rlit_i ''soprano'')
    (RAlt (rlit_i ''edit'')
    (RAlt (rlit_i ''orig'')
    (RAlt (rlit_i ''concert'') (rlit_i ''NEW''))))))))"

definition pat_suffix :: rx where
  "pat_suffix = RSeq (rplus isspace) (RSeq instrument (RSeq (RStar isdot) REol))"

definition pat_trailer :: rx where
  "pat_trailer = RSeq (RStar isspace)
     (RSeq (ROne (\<lambda>c. c = CHR ''('' \<or> c = CHR ''-'')) (RSeq (RStar isdot) REol))"

definition ispunct :: "char \<Rightarrow> bool" where
  "ispunct c \<longleftrightarrow> c = CHR 0x27 \<or> c = CHR '','' \<or> c = CHR ''.'' \<or> isdigit c"

definition pat_punct :: rx where
  "pat_punct = ROne ispunct"

definition pat_camel :: rx where
  "pat_camel = RSeq (ROne islower_ascii) (ROne isupper_ascii)"

definition pat_spaces :: rx where
  "pat_spaces = rplus isspace"

text \<open>The value of the variable \<open>name\<close> when \<open>clean_filename\<close> reaches its last test.\<close>

definition clean_name :: "string \<Rightarrow> string" where
  "clean_name filename =
     (let name = rsplit_dot_head filename;
          name = re_sub pat_prefix (\<lambda>m. []) name;
          name = re_sub pat_oclock (\<lambda>m. []) name;
          name = replace_char (CHR ''_'') (CHR '' '') name;
          name = re_sub pat_suffix (\<lambda>m. []) name;
          name = re_sub pat_trailer (\<lambda>m. []) name;
          name = re_sub pat_punct (\<lambda>m. []) name;
          name = re_sub pat_camel (\<lambda>m. take 1 m @ '' '' @ drop 1 m) name;
          name = re_sub pat_spaces (\<lambda>m. '' '') name;
          name = strip (rstrip_chars {CHR ''-''} (strip name));
          name = lower name
      in name)"

definition clean_filename :: "string \<Rightarrow> error + string" where
  "clean_filename filename =
     (case re_search pat_number filename of
        None \<Rightarrow> Inr []
      | Some m \<Rightarrow>
          (case py_int m of
             Inl e \<Rightarrow> Inl e
           | Inr number \<Rightarrow>
               (let name = clean_name filename
                in if name = [] then Inr []
                   else (case py_str number of
                           Inl e \<Rightarrow> Inl e
                         | Inr text \<Rightarrow> Inr (text @ '' '' @ name)))))"

section \<open>create_file_matrix and filter_matrix\<close>

text \<open>
  The listing that \<open>download_responses\<close> returns: a dict from titles to either a file
  or the listing of a subfolder. A dict is an association list in insertion order;
  \<open>dict_set\<close> is the assignment \<open>d[k] = v\<close>.
\<close>

datatype entry = DriveFile | Folder "(string \<times> entry) list"

fun dict_set :: "'k \<Rightarrow> 'v \<Rightarrow> ('k \<times> 'v) list \<Rightarrow> ('k \<times> 'v) list" where
  "dict_set k v [] = [(k, v)]"
| "dict_set k v (p # d) = (if fst p = k then (k, v) # d else p # dict_set k v d)"

text \<open>
  A pandas DataFrame: the row labels and the columns in order, each column with its
  label and one cell for each row.
\<close>

datatype cell = NaN | CBool bool | CStr string | CInt int

record frame =
  index :: "string list"
  columns :: "(string \<times> cell list) list"

definition new_frame :: "string list \<Rightarrow> string list \<Rightarrow> frame" where
  "new_frame idx cols =
     \<lparr>index = idx, columns = map (\<lambda>c. (c, replicate (length idx) NaN)) cols\<rparr>"

definition isin :: "string list \<Rightarrow> string list \<Rightarrow> cell list" where
  "isin idx keys = map (\<lambda>k. CBool (k \<in> set keys)) idx"

definition set_column :: "string \<Rightarrow> cell list \<Rightarrow> frame \<Rightarrow> frame" where
  "set_column c vals m = m\<lparr>columns := dict_set c vals (columns m)\<rparr>"

fun replace_cell :: "cell \<Rightarrow> cell" where
  "replace_cell (CBool True) = CStr ''yes''"
| "replace_cell (CBool False) = CStr ''no''"
| "replace_cell c = c"

definition replace_bool :: "frame \<Rightarrow> frame" where
  "replace_bool m = m\<lparr>columns := map (\<lambda>(c, vals). (c, map replace_cell vals)) (columns m)\<rparr>"

text \<open>\<open>DataFrame.insert(0, c, vals)\<close> raises \<open>ValueError\<close> when the label is already there.\<close>

definition insert_column :: "string \<Rightarrow> cell list \<Rightarrow> frame \<Rightarrow> error + frame" where
  "insert_column c vals m =
     (if c \<in> set (map fst (columns m)) then Inl ValueError
      else Inr (m\<lparr>columns := (c, vals) # columns m\<rparr>))"

text \<open>\<open>DataFrame.drop(columns=[c])\<close> raises \<open>KeyError\<close> when no column has the label.\<close>

definition drop_column :: "string \<Rightarrow> frame \<Rightarrow> error + frame" where
  "drop_column c m =
     (if c \<notin> set (map fst (columns m)) then Inl KeyError
      else Inr (m\<lparr>columns := filter (\<lambda>p. fst p \<noteq> c) (columns m)\<rparr>))"

text \<open>\<open>k.split(' ')[0]\<close>\<close>

definition first_token :: "string \<Rightarrow> string" where
  "first_token k = takeWhile (\<lambda>c. c \<noteq> CHR '' '') k"

text \<open>
  \<open>astype(int)\<close> on one label: the text is parsed as \<open>int\<close> does and stored in the
  column's 64-bit integer type, which raises \<open>OverflowError\<close> outside its range.
\<close>

definition astype_int :: "string \<Rightarrow> error + int" where
  "astype_int s =
     (case py_int s of
        Inl e \<Rightarrow> Inl e
      | Inr i \<Rightarrow> if - (2 ^ 63) \<le> i \<and> i < 2 ^ 63 then Inr i else Inl OverflowError)"

fun number_column :: "string list \<Rightarrow> error + cell list" where
  "number_column [] = Inr []"
| "number_column (k # ks) =
     (case astype_int (first_token k) of
        Inl e \<Rightarrow> Inl e
      | Inr n \<Rightarrow> (case number_column ks of Inl e \<Rightarrow> Inl e | Inr ns \<Rightarrow> Inr (CInt n # ns)))"

text \<open>The dict comprehension \<open>{clean_filename(f): v for f, v in files.items()}\<close>.\<close>

fun clean_files :: "(string \<times> entry) list \<Rightarrow> (string \<times> entry) list \<Rightarrow> error + (string \<times> entry) list" where
  "clean_files [] acc = Inr acc"
| "clean_files (p # fs) acc =
     (case clean_filename (fst p) of
        Inl e \<Rightarrow> Inl e
      | Inr k \<Rightarrow> clean_files fs (dict_set k (snd p) acc))"

text \<open>The first loop of \<open>create_file_matrix\<close>, which fills \<open>cleaned_dict\<close>.\<close>

fun clean_folders ::
  "(string \<times> entry) list \<Rightarrow> (string \<times> (string \<times> entry) list) list \<Rightarrow>
   error + (string \<times> (string \<times> entry) list) list" where
  "clean_folders [] acc = Inr acc"
| "clean_folders (p # rest) acc =
     (case snd p of
        DriveFile \<Rightarrow> clean_folders rest acc
      | Folder files \<Rightarrow>
          (case clean_files files [] of
             Inl e \<Rightarrow> Inl e
           | Inr d \<Rightarrow> clean_folders rest (dict_set (fst p) d acc)))"

definition all_filenames :: "(string \<times> (string \<times> entry) list) list \<Rightarrow> string set" where
  "all_filenames cleaned_dict = (\<Union>files \<in> set (map snd cleaned_dict). set (map fst files)) - {[]}"

definition fill_columns :: "(string \<times> (string \<times> entry) list) list \<Rightarrow> frame \<Rightarrow> frame" where
  "fill_columns cleaned_dict matrix =
     foldl (\<lambda>m p. set_column (fst p) (isin (index m) (map fst (snd p))) m) matrix cleaned_dict"

definition create_file_matrix :: "(string \<times> entry) list \<Rightarrow> error + frame" where
  "create_file_matrix folder_dict =
     (case clean_folders folder_dict [] of
        Inl e \<Rightarrow> Inl e
      | Inr cleaned_dict \<Rightarrow>
          (let matrix = new_frame (sorted_list_of_set (all_filenames cleaned_dict))
                                  (sorted_list_of_set (set (map fst cleaned_dict)));
               matrix = fill_columns cleaned_dict matrix;
               matrix = replace_bool matrix
           in case number_column (index matrix) of
                Inl e \<Rightarrow> Inl e
              | Inr numbers \<Rightarrow> insert_column ''Number'' numbers matrix))"

definition misc_parts :: string where
  "misc_parts = ''VJE MISCELLANEOUS PARTS (VOCAL, VIBRAPHONE, ETC.)''"

definition filter_matrix :: "frame \<Rightarrow> error + frame" where
  "filter_matrix df = drop_column misc_parts df"

text \<open>\<open>create_file_matrix(file_list).pipe(filter_matrix)\<close>\<close>

definition pipeline :: "(string \<times> entry) list \<Rightarrow> error + frame" where
  "pipeline file_list =
     (case create_file_matrix file_list of Inl e \<Rightarrow> Inl e | Inr matrix \<Rightarrow> filter_matrix matrix)"

section \<open>Notions used in the statements\<close>

text \<open>The first test of \<open>clean_filename\<close> in words: the name begins with a decimal digit.\<close>

definition starts_with_digit :: "string \<Rightarrow> bool" where
  "starts_with_digit s = (case s of [] \<Rightarrow> False | c # cs \<Rightarrow> isdigit c)"

text \<open>A dict holds each key once.\<close>

definition is_dict :: "('k \<times> 'v) list \<Rightarrow> bool" where
  "is_dict d = distinct (map fst d)"

text \<open>The folders of a listing: its top-level entries that are not leaf files.\<close>

definition folders :: "(string \<times> entry) list \<Rightarrow> (string \<times> (string \<times> entry) list) set" where
  "folders listing = {(name, files). (name, Folder files) \<in> set listing}"

definition folder_names :: "(string \<times> entry) list \<Rightarrow> string set" where
  "folder_names listing = fst ` folders listing"

text \<open>
  The names of the entries of a folder, leaf files and subfolders alike, which are what
  \<open>create_file_matrix\<close> cleans, and the canonical keys produced from them.
\<close>

definition raw_names :: "(string \<times> entry) list \<Rightarrow> string set" where
  "raw_names files = set (map fst files)"

definition folder_keys :: "(string \<times> entry) list \<Rightarrow> string set" where
  "folder_keys files = {k. \<exists>f \<in> raw_names files. clean_filename f = Inr k}"

definition all_raw_names :: "(string \<times> entry) list \<Rightarrow> string set" where
  "all_raw_names listing = (\<Union>p \<in> folders listing. raw_names (snd p))"

definition all_keys :: "(string \<times> entry) list \<Rightarrow> string set" where
  "all_keys listing = (\<Union>p \<in> folders listing. folder_keys (snd p))"

text \<open>The names of the leaf files of a folder alone, and the keys produced from those.\<close>

definition file_names :: "(string \<times> entry) list \<Rightarrow> string set" where
  "file_names files = {f. (f, DriveFile) \<in> set files}"

definition file_keys :: "(string \<times> entry) list \<Rightarrow> string set" where
  "file_keys files = {k. \<exists>f \<in> file_names files. clean_filename f = Inr k}"

definition all_file_names :: "(string \<times> entry) list \<Rightarrow> string set" where
  "all_file_names listing = (\<Union>p \<in> folders listing. file_names (snd p))"

text \<open>The cells of the column with a given label, if there is one.\<close>

definition column :: "frame \<Rightarrow> string \<Rightarrow> cell list option" where
  "column m c = map_of (columns m) c"

text \<open>
  A string is single-spaced when each of its whitespace characters is a blank that
  no whitespace follows: what the whitespace rule of \<open>clean_filename\<close> leaves.
\<close>

fun single_spaced :: "string \<Rightarrow> bool" where
  "single_spaced [] = True"
| "single_spaced (c # s) =
     ((isspace c \<longrightarrow> c = CHR '' '' \<and> (s = [] \<or> \<not> isspace (hd s))) \<and> single_spaced s)"

section \<open>Facts about the matcher\<close>

declare str_digits.simps [simp del]
declare sub_from.simps [simp del]

lemma sub_from_Nil:
  "sub_from r f b [] = (case match_at r b [] of None \<Rightarrow> [] | Some m \<Rightarrow> f m)"
  by (subst sub_from.simps) (auto simp: match_at_def split: option.splits list.splits)

lemma sub_from_no_match:
  "match_at r b (c # cs) = None \<Longrightarrow> sub_from r f b (c # cs) = c # sub_from r f False cs"
  by (subst sub_from.simps) simp

lemma sub_from_match:
  "match_at r b s = Some m \<Longrightarrow> m \<noteq> [] \<Longrightarrow>
   sub_from r f b s = f m @ sub_from r f False (drop (length m) s)"
  by (subst sub_from.simps) simp

lemmas char_class_defs = isdigit_def isspace_def isupper_ascii_def islower_ascii_def isupper_def
  ispunct_def isdot_def less_eq_char_def

lemma digit_not_space: "isdigit c \<Longrightarrow> \<not> isspace c"
  by (auto simp: char_class_defs)

lemma digit_not_sign: "isdigit c \<Longrightarrow> c \<noteq> CHR ''-'' \<and> c \<noteq> CHR ''+'' \<and> c \<noteq> CHR ''_'' \<and> c \<noteq> CHR '' ''"
  by (auto simp: char_class_defs)

lemma greedy_nonempty: "greedy P s \<noteq> []"
  by (induction s) auto

lemma hd_greedy: "hd (greedy P s) = dropWhile P s"
  by (induction s) (auto simp: greedy_nonempty)

lemma greedy_cons: "\<exists>ts. greedy P s = dropWhile P s # ts"
  using greedy_nonempty[of P s] hd_greedy[of P s] by (cases "greedy P s") auto

lemma rmatch_rplus:
  "rmatch (rplus P) b s = (case s of [] \<Rightarrow> [] | c # cs \<Rightarrow> if P c then greedy P cs else [])"
  by (auto simp: rplus_def split: list.splits)

lemma take_length_dropWhile: "take (length s - length (dropWhile P s)) s = takeWhile P s"
proof -
  have "length s - length (dropWhile P s) = length (takeWhile P s)"
    by (metis add_diff_cancel_right' length_append takeWhile_dropWhile_id)
  then show ?thesis
    by (metis append_eq_conv_conj takeWhile_dropWhile_id)
qed

lemma match_at_bol_False: "match_at (RSeq RBol r) False s = None"
  by (simp add: match_at_def)

lemma search_from_bol_False: "search_from (RSeq RBol r) False s = None"
  by (induction s) (simp_all add: match_at_bol_False)

lemma sub_from_bol_False: "sub_from (RSeq RBol r) f False s = s"
  by (induction s) (simp_all add: sub_from_Nil sub_from_no_match match_at_bol_False)

lemma re_search_number:
  "re_search pat_number s =
     (if s \<noteq> [] \<and> isdigit (hd s) then Some (takeWhile isdigit s) else None)"
proof (cases s)
  case Nil
  then show ?thesis by (simp add: re_search_def pat_number_def match_at_def rmatch_rplus)
next
  case (Cons c cs)
  show ?thesis
  proof (cases "isdigit c")
    case True
    obtain ts where g: "greedy isdigit cs = dropWhile isdigit cs # ts"
      using greedy_cons by blast
    have "take (length (c # cs) - length (dropWhile isdigit (c # cs))) (c # cs) = takeWhile isdigit (c # cs)"
      by (rule take_length_dropWhile)
    with True g Cons show ?thesis 
      by (simp add: re_search_def pat_number_def match_at_def rmatch_rplus)
  next
    case False
    with Cons show ?thesis
      by (simp add: re_search_def pat_number_def match_at_def rmatch_rplus search_from_bol_False)
  qed
qed

lemma dropWhile_rev_id: "s = [] \<or> \<not> P (last s) \<Longrightarrow> dropWhile P (rev s) = rev s"
  by (cases s rule: rev_cases) auto

lemma strip_id: "s = [] \<or> (\<not> isspace (hd s) \<and> \<not> isspace (last s)) \<Longrightarrow> strip s = s"
proof -
  assume a: "s = [] \<or> (\<not> isspace (hd s) \<and> \<not> isspace (last s))"
  then have 1: "dropWhile isspace s = s" by (cases s) auto
  from a have 2: "dropWhile isspace (rev s) = rev s" by (intro dropWhile_rev_id) auto
  show ?thesis by (simp add: strip_def 1 2)
qed

lemma valid_digits_all: "s \<noteq> [] \<Longrightarrow> \<forall>c\<in>set s. isdigit c \<Longrightarrow> valid_digits s"
  by (induction s rule: valid_digits.induct) (auto dest: digit_not_sign)

lemma py_int_digits:
  assumes "s \<noteq> []" "\<forall>c\<in>set s. isdigit c"
  shows "py_int s = (if max_str_digits < length s then Inl ValueError else Inr (digits_val s))"
proof -
  have h: "isdigit (hd s)" and l: "isdigit (last s)" using assms by auto
  have st: "strip s = s" using h l by (intro strip_id) (auto dest: digit_not_space)
  have f: "filter (\<lambda>c. c \<noteq> CHR ''_'') s = s"
    using assms(2) by (auto simp: filter_id_conv dest: digit_not_sign)
  from h have "hd s \<noteq> CHR ''-''" "hd s \<noteq> CHR ''+''" by (auto dest: digit_not_sign)
  then show ?thesis
    using assms by (simp add: py_int_def st f valid_digits_all Let_def)
qed

lemma digits_val_snoc: "digits_val (s @ [c]) = 10 * digits_val s + digit_val c"
  by (simp add: digits_val_def)

lemma digit_chars:
  "char_of (48::int) = CHR ''0''" "char_of (49::int) = CHR ''1''" "char_of (50::int) = CHR ''2''"
  "char_of (51::int) = CHR ''3''" "char_of (52::int) = CHR ''4''" "char_of (53::int) = CHR ''5''"
  "char_of (54::int) = CHR ''6''" "char_of (55::int) = CHR ''7''" "char_of (56::int) = CHR ''8''"
  "char_of (57::int) = CHR ''9''"
  by code_simp+

lemma digit_char:
  assumes "0 \<le> d" "d < 10"
  shows "isdigit (char_of (48 + d))" "digit_val (char_of (48 + d)) = d"
proof -
  from assms have "d = 0 \<or> d = 1 \<or> d = 2 \<or> d = 3 \<or> d = 4 \<or> d = 5 \<or> d = 6 \<or> d = 7 \<or> d = 8 \<or> d = (9::int)"
    by arith
  then show "isdigit (char_of (48 + d))" "digit_val (char_of (48 + d)) = d"
    by (auto simp: isdigit_def less_eq_char_def digit_val_def digit_chars)
qed

lemma str_digits_props:
  "0 \<le> i \<Longrightarrow> str_digits i \<noteq> [] \<and> (\<forall>c\<in>set (str_digits i). isdigit c) \<and> digits_val (str_digits i) = i"
proof (induction i rule: str_digits.induct)
  case (1 i)
  show ?case
  proof (cases "i < 10")
    case True
    with 1(2) have "str_digits i = [char_of (48 + i)]" by (subst str_digits.simps) simp
    with True 1(2) show ?thesis
      by (simp add: digit_char digits_val_def)
  next
    case False
    then have ih: "str_digits (i div 10) \<noteq> [] \<and> (\<forall>c\<in>set (str_digits (i div 10)). isdigit c) \<and> digits_val (str_digits (i div 10)) = i div 10"
      using 1 by simp
    have m: "0 \<le> i mod 10" "i mod 10 < 10" by simp_all
    from False have "str_digits i = str_digits (i div 10) @ [char_of (48 + i mod 10)]"
      by (subst str_digits.simps) simp
    with ih show ?thesis
      by (simp add: digit_char[OF m] digits_val_snoc)
  qed
qed

lemma digits_val_nonneg_aux: "\<forall>c\<in>set s. isdigit c \<Longrightarrow> 0 \<le> a \<Longrightarrow> 0 \<le> foldl (\<lambda>a c. 10 * a + digit_val c) a s"
  by (induction s arbitrary: a) (auto simp: isdigit_def less_eq_char_def digit_val_def)

lemma digits_val_nonneg: "\<forall>c\<in>set s. isdigit c \<Longrightarrow> 0 \<le> digits_val s"
  by (simp add: digits_val_def digits_val_nonneg_aux)

lemma py_int_decimal:
  "0 \<le> i \<Longrightarrow> length (decimal i) \<le> max_str_digits \<Longrightarrow> py_int (decimal i) = Inr i"
  using str_digits_props[of i] by (simp add: decimal_def py_int_digits)

lemma py_str_nonneg:
  "0 \<le> i \<Longrightarrow>
   py_str i = (if max_str_digits < length (decimal i) then Inl ValueError else Inr (decimal i))"
  by (simp add: py_str_def decimal_def)

lemma digit_val_range: "isdigit c \<Longrightarrow> 0 \<le> digit_val c \<and> digit_val c \<le> 9"
  by (auto simp: isdigit_def less_eq_char_def digit_val_def)

lemma digits_val_bound: "\<forall>c\<in>set s. isdigit c \<Longrightarrow> digits_val s < 10 ^ length s"
proof (induction s rule: rev_induct)
  case Nil
  show ?case by (simp add: digits_val_def)
next
  case (snoc c s)
  then have "digits_val s < 10 ^ length s" and "digit_val c \<le> 9"
    using digit_val_range[of c] by simp_all
  then show ?case by (simp add: digits_val_snoc)
qed

lemma str_digits_length:
  "0 \<le> n \<Longrightarrow> n < 10 ^ k \<Longrightarrow> 0 < k \<Longrightarrow> length (str_digits n) \<le> k"
proof (induction n arbitrary: k rule: str_digits.induct)
  case (1 i)
  show ?case
  proof (cases "i < 10")
    case True
    then have "str_digits i = [char_of (48 + i)]" by (subst str_digits.simps) simp
    with 1(4) show ?thesis by simp
  next
    case False
    have eq: "str_digits i = str_digits (i div 10) @ [char_of (48 + i mod 10)]"
      using False by (subst str_digits.simps) simp
    obtain j where k: "k = Suc j" using 1(4) by (cases k) auto
    have j: "0 < j" using False 1(3) k by (cases j) simp_all
    define X :: int where "X = 10 ^ j"
    have "i < 10 * X" using 1(3) k by (simp add: X_def)
    then have "i div 10 < X" by arith
    then have "i div 10 < 10 ^ j" by (simp add: X_def)
    moreover have "0 \<le> i div 10" using 1(2) by simp
    ultimately have "length (str_digits (i div 10)) \<le> j"
      using False j by (intro 1(1)) simp_all
    with eq k show ?thesis by simp
  qed
qed

text \<open>Printing the value of a digit run gives no more digits than the run has.\<close>

lemma decimal_length:
  assumes "s \<noteq> []" "\<forall>c\<in>set s. isdigit c"
  shows "length (decimal (digits_val s)) \<le> length s"
proof -
  have "0 \<le> digits_val s" using assms(2) by (rule digits_val_nonneg)
  moreover have "digits_val s < 10 ^ length s" using assms(2) by (rule digits_val_bound)
  moreover have "0 < length s" using assms(1) by simp
  ultimately have "length (str_digits (digits_val s)) \<le> length s" by (rule str_digits_length)
  with \<open>0 \<le> digits_val s\<close> show ?thesis by (simp add: decimal_def)
qed

lemma starts_with_digit_search: "starts_with_digit s \<longleftrightarrow> re_search pat_number s \<noteq> None"
  by (cases s) (simp_all add: starts_with_digit_def re_search_number)

lemma clean_filename_eq:
  "clean_filename f =
     (if \<not> starts_with_digit f then Inr []
      else if max_str_digits < length (takeWhile isdigit f) then Inl ValueError
      else Inr (if clean_name f \<noteq> []
                then decimal (digits_val (takeWhile isdigit f)) @ '' '' @ clean_name f else []))"
proof (cases "starts_with_digit f")
  case True
  let ?m = "takeWhile isdigit f"
  from True have ne: "?m \<noteq> []" and hd: "f \<noteq> [] \<and> isdigit (hd f)"
    by (cases f; simp add: starts_with_digit_def)+
  have dig: "\<forall>c\<in>set ?m. isdigit c" by (auto dest: set_takeWhileD)
  have int: "py_int ?m = (if max_str_digits < length ?m then Inl ValueError else Inr (digits_val ?m))"
    using ne dig by (rule py_int_digits)
  have nn: "0 \<le> digits_val ?m" using dig by (rule digits_val_nonneg)
  have "length (decimal (digits_val ?m)) \<le> length ?m" using ne dig by (rule decimal_length)
  then have str: "\<not> max_str_digits < length ?m \<Longrightarrow> py_str (digits_val ?m) = Inr (decimal (digits_val ?m))"
    by (simp add: py_str_nonneg[OF nn])
  show ?thesis
  proof (cases "max_str_digits < length ?m")
    case big: True
    with True hd int show ?thesis
      by (simp add: clean_filename_def re_search_number)
  next
    case small: False
    with True hd int str[OF small] show ?thesis
      by (simp add: clean_filename_def re_search_number Let_def)
  qed
next
  case False
  then have "f = [] \<or> \<not> isdigit (hd f)" by (cases f) (simp_all add: starts_with_digit_def)
  with False show ?thesis by (auto simp: clean_filename_def re_search_number)
qed

lemma of_char_lower_char:
  "of_char (lower_char c) = (if isupper c then of_char c + 32 else (of_char c :: nat))"
proof -
  have "(of_char c :: nat) < 256" by simp
  then show ?thesis
    by (auto simp: lower_char_def isupper_def isupper_ascii_def less_eq_char_def)
qed

lemma char_eq_iff_nat: "c = d \<longleftrightarrow> (of_char c :: nat) = of_char d"
  by simp

lemma lower_char_space [simp]: "isspace (lower_char c) = isspace c"
  unfolding isspace_def less_eq_char_def char_eq_iff_nat[of _ "CHR 0x85"] char_eq_iff_nat[of _ "CHR 0xA0"]
    of_char_lower_char
  by (auto simp: isupper_def isupper_ascii_def less_eq_char_def)

lemma lower_char_digit [simp]: "isdigit (lower_char c) = isdigit c"
  unfolding isdigit_def less_eq_char_def of_char_lower_char
  by (auto simp: isupper_def isupper_ascii_def less_eq_char_def)

lemma lower_char_not_upper [simp]: "\<not> isupper (lower_char c)"
  unfolding isupper_def isupper_ascii_def less_eq_char_def char_eq_iff_nat[of _ "CHR 0xD7"] of_char_lower_char
  by (auto simp: isupper_def isupper_ascii_def less_eq_char_def)

lemma lower_char_idem [simp]: "lower_char (lower_char c) = lower_char c"
  using lower_char_not_upper[of c] by (subst lower_char_def) simp

lemma lower_char_punct [simp]: "ispunct (lower_char c) = ispunct c"
  unfolding ispunct_def lower_char_digit char_eq_iff_nat[of _ "CHR 0x27"] char_eq_iff_nat[of _ "CHR '',''"]
    char_eq_iff_nat[of _ "CHR ''.''"] of_char_lower_char
  by (auto simp: isupper_def isupper_ascii_def less_eq_char_def)

lemma lower_char_eq_low:
  "(of_char d :: nat) < 65 \<or> of_char d = (95::nat) \<Longrightarrow> lower_char c = d \<longleftrightarrow> c = d"
  unfolding char_eq_iff_nat[of _ d] of_char_lower_char
  by (auto simp: isupper_def isupper_ascii_def less_eq_char_def)

lemma dropWhile_hd: "dropWhile P s \<noteq> [] \<Longrightarrow> \<not> P (hd (dropWhile P s))"
  by (metis hd_dropWhile)

lemma rstrip_last: "rev (dropWhile P (rev s)) \<noteq> [] \<Longrightarrow> \<not> P (last (rev (dropWhile P (rev s))))"
  by (metis hd_dropWhile last_rev rev_is_Nil_conv)

lemma rstrip_hd:
  assumes "rev (dropWhile P (rev s)) \<noteq> []"
  shows "hd (rev (dropWhile P (rev s))) = hd s"
proof -
  have "rev s = takeWhile P (rev s) @ dropWhile P (rev s)" by simp
  then have "s = rev (dropWhile P (rev s)) @ rev (takeWhile P (rev s))"
    by (metis rev_append rev_rev_ident)
  with assms show ?thesis by (metis hd_append2)
qed

lemma strip_ends:
  assumes "strip s \<noteq> []"
  shows "\<not> isspace (hd (strip s))" "\<not> isspace (last (strip s))"
proof -
  let ?t = "dropWhile isspace s"
  from assms have ne: "rev (dropWhile isspace (rev ?t)) \<noteq> []" by (simp add: strip_def)
  have "?t \<noteq> []"
  proof
    assume "?t = []"
    with ne show False by simp
  qed
  then have "\<not> isspace (hd ?t)" by (rule dropWhile_hd)
  with rstrip_hd[OF ne] show "\<not> isspace (hd (strip s))" by (simp add: strip_def)
  from rstrip_last[OF ne] show "\<not> isspace (last (strip s))" by (simp add: strip_def)
qed

lemma set_strip: "set (strip s) \<subseteq> set s"
  unfolding strip_def by (metis set_rev set_dropWhileD subsetI)

lemma clean_name_ends:
  assumes "clean_name f \<noteq> []"
  shows "\<not> isspace (hd (clean_name f))" "\<not> isspace (last (clean_name f))"
proof -
  obtain t where t: "clean_name f = lower (strip t)"
    by (simp add: clean_name_def Let_def)
  with assms have ne: "strip t \<noteq> []" by (auto simp: lower_def)
  from t ne have "hd (clean_name f) = lower_char (hd (strip t))" "last (clean_name f) = lower_char (last (strip t))"
    by (simp_all add: lower_def hd_map last_map)
  with strip_ends[OF ne] show "\<not> isspace (hd (clean_name f))" "\<not> isspace (last (clean_name f))"
    by simp_all
qed

lemma first_token_digits:
  "\<forall>c\<in>set d. isdigit c \<Longrightarrow> first_token (d @ '' '' @ n) = d"
  by (auto simp: first_token_def takeWhile_append dest: digit_not_sign intro!: takeWhile_eq_all_conv[THEN iffD2])

section \<open>Facts about dicts and frames\<close>

lemma dict_set_keys: "fst ` set (dict_set k v d) = insert k (fst ` set d)"
  by (induction d) auto

lemma dict_set_subset: "set (dict_set k v d) \<subseteq> insert (k, v) (set d)"
  by (induction d) auto

lemma dict_set_fresh: "k \<notin> set (map fst d) \<Longrightarrow> dict_set k v d = d @ [(k, v)]"
  by (induction d) auto

lemma clean_filename_returns:
  "length (takeWhile isdigit f) \<le> max_str_digits \<Longrightarrow> \<exists>k. clean_filename f = Inr k"
  by (simp add: clean_filename_eq)

lemma clean_files_keys:
  "clean_files fs acc = Inr d \<Longrightarrow> set (map fst d) = set (map fst acc) \<union> folder_keys fs"
proof (induction fs arbitrary: acc)
  case Nil
  then show ?case by (simp add: folder_keys_def raw_names_def)
next
  case (Cons p fs)
  from Cons.prems obtain k where k: "clean_filename (fst p) = Inr k"
    and r: "clean_files fs (dict_set k (snd p) acc) = Inr d"
    by (auto split: sum.splits)
  have "set (map fst d) = set (map fst (dict_set k (snd p) acc)) \<union> folder_keys fs"
    using r by (rule Cons.IH)
  moreover have "folder_keys (p # fs) = insert k (folder_keys fs)"
    using k by (auto simp: folder_keys_def raw_names_def)
  ultimately show ?case by (simp add: dict_set_keys)
qed

text \<open>The cleaned dict of one folder.\<close>

lemma clean_files_Inr: "clean_files fs [] = Inr d \<Longrightarrow> set (map fst d) = folder_keys fs"
  using clean_files_keys[of fs "[]" d] by simp

lemma clean_files_returns:
  "\<forall>f\<in>raw_names fs. \<exists>k. clean_filename f = Inr k \<Longrightarrow> \<exists>d. clean_files fs acc = Inr d"
proof (induction fs arbitrary: acc)
  case Nil
  show ?case by simp
next
  case (Cons p fs)
  from Cons.prems obtain k where k: "clean_filename (fst p) = Inr k"
    by (auto simp: raw_names_def)
  from Cons.prems have "\<forall>f\<in>raw_names fs. \<exists>k. clean_filename f = Inr k"
    by (simp add: raw_names_def)
  from Cons.IH[OF this, of "dict_set k (snd p) acc"] k show ?case by simp
qed

lemma folders_Cons_file: "snd p = DriveFile \<Longrightarrow> folders (p # L) = folders L"
  by (cases p) (auto simp: folders_def)

lemma folders_Cons_folder: "snd p = Folder files \<Longrightarrow> folders (p # L) = insert (fst p, files) (folders L)"
  by (cases p) (auto simp: folders_def)

lemma clean_folders_keys:
  "clean_folders L acc = Inr cd \<Longrightarrow> set (map fst cd) = set (map fst acc) \<union> folder_names L"
proof (induction L arbitrary: acc)
  case Nil
  then show ?case by (simp add: folder_names_def folders_def)
next
  case (Cons p L)
  show ?case
  proof (cases "snd p")
    case DriveFile
    with Cons.prems have "clean_folders L acc = Inr cd" by simp
    from Cons.IH[OF this] folders_Cons_file[OF DriveFile, of L] show ?thesis
      by (simp add: folder_names_def)
  next
    case (Folder files)
    with Cons.prems obtain d where d: "clean_files files [] = Inr d"
      and r: "clean_folders L (dict_set (fst p) d acc) = Inr cd"
      by (auto split: sum.splits)
    from Cons.IH[OF r] folders_Cons_folder[OF Folder, of L] show ?thesis
      by (simp add: folder_names_def dict_set_keys)
  qed
qed

lemma clean_folders_entries:
  "clean_folders L acc = Inr cd \<Longrightarrow> (f, d) \<in> set cd \<Longrightarrow>
   (f, d) \<in> set acc \<or> (\<exists>files. (f, files) \<in> folders L \<and> clean_files files [] = Inr d)"
proof (induction L arbitrary: acc)
  case Nil
  then show ?case by simp
next
  case (Cons p L)
  show ?case
  proof (cases "snd p")
    case DriveFile
    with Cons.prems have "clean_folders L acc = Inr cd" by simp
    from Cons.IH[OF this Cons.prems(2)] show ?thesis
      by (auto simp: folders_def)
  next
    case (Folder files)
    with Cons.prems obtain d' where d': "clean_files files [] = Inr d'"
      and r: "clean_folders L (dict_set (fst p) d' acc) = Inr cd"
      by (auto split: sum.splits)
    from Cons.IH[OF r Cons.prems(2)]
    have "(f, d) \<in> set (dict_set (fst p) d' acc) \<or> (\<exists>files. (f, files) \<in> folders L \<and> clean_files files [] = Inr d)" .
    moreover have "(fst p, files) \<in> folders (p # L)"
      using Folder by (cases p) (auto simp: folders_def)
    moreover have "folders L \<subseteq> folders (p # L)" by (auto simp: folders_def)
    ultimately show ?thesis using d' dict_set_subset[of "fst p" d' acc] by blast
  qed
qed

text \<open>For a dict, every folder of the listing has its own entry in \<open>cleaned_dict\<close>.\<close>

lemma clean_folders_dict:
  "distinct (map fst L) \<Longrightarrow> distinct (map fst acc) \<Longrightarrow>
   set (map fst acc) \<inter> set (map fst L) = {} \<Longrightarrow> clean_folders L acc = Inr cd \<Longrightarrow>
   distinct (map fst cd) \<and> set acc \<subseteq> set cd
   \<and> (\<forall>f files. (f, files) \<in> folders L \<longrightarrow> (\<exists>d. (f, d) \<in> set cd \<and> clean_files files [] = Inr d))"
proof (induction L arbitrary: acc)
  case Nil
  then show ?case by (simp add: folders_def)
next
  case (Cons p L)
  show ?case
  proof (cases "snd p")
    case DriveFile
    with Cons.prems have r: "clean_folders L acc = Inr cd" by simp
    have "distinct (map fst cd) \<and> set acc \<subseteq> set cd
      \<and> (\<forall>f files. (f, files) \<in> folders L \<longrightarrow> (\<exists>d. (f, d) \<in> set cd \<and> clean_files files [] = Inr d))"
      using Cons.prems r by (intro Cons.IH) auto
    then show ?thesis by (simp add: folders_Cons_file[OF DriveFile])
  next
    case (Folder files)
    with Cons.prems obtain d' where d': "clean_files files [] = Inr d'"
      and r: "clean_folders L (dict_set (fst p) d' acc) = Inr cd"
      by (auto split: sum.splits)
    from Cons.prems(3) have fr: "fst p \<notin> set (map fst acc)" by auto
    have acc': "dict_set (fst p) d' acc = acc @ [(fst p, d')]"
      using fr by (rule dict_set_fresh)
    have ih: "distinct (map fst cd) \<and> set (acc @ [(fst p, d')]) \<subseteq> set cd
      \<and> (\<forall>f files. (f, files) \<in> folders L \<longrightarrow> (\<exists>d. (f, d) \<in> set cd \<and> clean_files files [] = Inr d))"
      using Cons.prems fr r[unfolded acc'] by (intro Cons.IH) auto
    then have "(fst p, d') \<in> set cd" and "set acc \<subseteq> set cd" by auto
    with ih d' show ?thesis
      unfolding folders_Cons_folder[OF Folder] by auto
  qed
qed

lemma clean_folders_returns:
  "\<forall>f\<in>all_raw_names L. \<exists>k. clean_filename f = Inr k \<Longrightarrow> \<exists>cd. clean_folders L acc = Inr cd"
proof (induction L arbitrary: acc)
  case Nil
  show ?case by simp
next
  case (Cons p L)
  show ?case
  proof (cases "snd p")
    case DriveFile
    with Cons.prems have "\<forall>f\<in>all_raw_names L. \<exists>k. clean_filename f = Inr k"
      by (simp add: all_raw_names_def folders_Cons_file)
    from Cons.IH[OF this, of acc] DriveFile show ?thesis by simp
  next
    case (Folder files)
    from Cons.prems have a: "\<forall>f\<in>raw_names files. \<exists>k. clean_filename f = Inr k"
      and b: "\<forall>f\<in>all_raw_names L. \<exists>k. clean_filename f = Inr k"
      by (simp_all add: all_raw_names_def folders_Cons_folder[OF Folder])
    obtain d where d: "clean_files files [] = Inr d"
      using clean_files_returns[OF a] by blast
    from Cons.IH[OF b, of "dict_set (fst p) d acc"] Folder d show ?thesis by simp
  qed
qed

lemma dict_set_map:
  "k \<in> set cs \<Longrightarrow> distinct cs \<Longrightarrow>
   dict_set k v (map (\<lambda>c. (c, g c)) cs) = map (\<lambda>c. (c, (g(k := v)) c)) cs"
  by (induction cs) auto

lemma fill_columns_eq:
  "distinct cs \<Longrightarrow> set (map fst cd) \<subseteq> set cs \<Longrightarrow>
   fill_columns cd \<lparr>index = idx, columns = map (\<lambda>c. (c, g c)) cs\<rparr> =
   \<lparr>index = idx,
    columns = map (\<lambda>c. (c, case map_of (rev cd) c of
                               None \<Rightarrow> g c
                             | Some files \<Rightarrow> isin idx (map fst files))) cs\<rparr>"
proof (induction cd arbitrary: g)
  case Nil
  show ?case by (simp add: fill_columns_def)
next
  case (Cons p cd)
  let ?v = "isin idx (map fst (snd p))"
  from Cons.prems have k: "fst p \<in> set cs" by simp
  have step: "set_column (fst p) ?v \<lparr>index = idx, columns = map (\<lambda>c. (c, g c)) cs\<rparr>
        = \<lparr>index = idx, columns = map (\<lambda>c. (c, (g(fst p := ?v)) c)) cs\<rparr>"
    by (simp add: set_column_def dict_set_map[OF k Cons.prems(1)])
  have "fill_columns (p # cd) \<lparr>index = idx, columns = map (\<lambda>c. (c, g c)) cs\<rparr>
        = fill_columns cd \<lparr>index = idx, columns = map (\<lambda>c. (c, (g(fst p := ?v)) c)) cs\<rparr>"
    using step by (simp add: fill_columns_def)
  also have "\<dots> = \<lparr>index = idx,
    columns = map (\<lambda>c. (c, case map_of (rev cd) c of
                               None \<Rightarrow> (g(fst p := ?v)) c
                             | Some files \<Rightarrow> isin idx (map fst files))) cs\<rparr>"
    using Cons.prems by (intro Cons.IH) auto
  also have "\<dots> = \<lparr>index = idx,
    columns = map (\<lambda>c. (c, case map_of (rev (p # cd)) c of
                               None \<Rightarrow> g c
                             | Some files \<Rightarrow> isin idx (map fst files))) cs\<rparr>"
    by (cases p) (auto simp: map_add_def split: option.splits)
  finally show ?case .
qed

lemma map_of_rev_distinct: "distinct (map fst d) \<Longrightarrow> map_of (rev d) = map_of d"
proof (induction d)
  case Nil
  show ?case by simp
next
  case (Cons p d)
  then have ih: "map_of (rev d) = map_of d" by simp
  from Cons.prems have "fst p \<notin> dom (map_of d)" by (simp add: dom_map_of_conv_image_fst)
  then have "map_of d (fst p) = None" by blast
  then show ?case
    by (cases p) (auto simp: ih map_add_def fun_eq_iff split: option.splits)
qed

lemma number_column_length: "number_column ks = Inr ns \<Longrightarrow> length ns = length ks"
  by (induction ks arbitrary: ns) (auto split: sum.splits)

lemma create_file_matrix_struct:
  assumes "clean_folders L [] = Inr cd" "create_file_matrix L = Inr M"
  shows "index M = sorted_list_of_set (all_filenames cd)"
    and "\<exists>nums. number_column (index M) = Inr nums \<and>
          columns M = (''Number'', nums) #
            map (\<lambda>c. (c, map replace_cell
                           (case map_of (rev cd) c of
                              None \<Rightarrow> replicate (length (index M)) NaN
                            | Some files \<Rightarrow> isin (index M) (map fst files))))
                (sorted_list_of_set (set (map fst cd)))"
    and "''Number'' \<notin> set (map fst cd)"
proof -
  let ?idx = "sorted_list_of_set (all_filenames cd)"
  let ?cs = "sorted_list_of_set (set (map fst cd))"
  let ?cols = "map (\<lambda>c. (c, case map_of (rev cd) c of
                               None \<Rightarrow> replicate (length ?idx) NaN
                             | Some files \<Rightarrow> isin ?idx (map fst files))) ?cs"
  have fc: "fill_columns cd (new_frame ?idx ?cs) = \<lparr>index = ?idx, columns = ?cols\<rparr>"
    unfolding new_frame_def by (rule fill_columns_eq) simp_all
  let ?m = "replace_bool \<lparr>index = ?idx, columns = ?cols\<rparr>"
  have idx: "index ?m = ?idx" by (simp add: replace_bool_def)
  have cols: "columns ?m = map (\<lambda>c. (c, map replace_cell
                           (case map_of (rev cd) c of
                              None \<Rightarrow> replicate (length ?idx) NaN
                            | Some files \<Rightarrow> isin ?idx (map fst files)))) ?cs"
    by (simp add: replace_bool_def)
  have labels: "map fst (columns ?m) = ?cs" by (subst cols) (simp add: comp_def)
  have "create_file_matrix L = (case number_column ?idx of
                Inl e \<Rightarrow> Inl e
              | Inr numbers \<Rightarrow> insert_column ''Number'' numbers ?m)"
    by (simp only: create_file_matrix_def Let_def assms(1) sum.case fc idx)
  with assms(2) have res: "(case number_column ?idx of
                Inl e \<Rightarrow> Inl e
              | Inr numbers \<Rightarrow> insert_column ''Number'' numbers ?m) = Inr M"
    by simp
  then obtain nums where n: "number_column ?idx = Inr nums" and i: "insert_column ''Number'' nums ?m = Inr M"
    by (auto split: sum.splits)
  from i have notin: "''Number'' \<notin> set (map fst (columns ?m))" and M: "M = ?m\<lparr>columns := (''Number'', nums) # columns ?m\<rparr>"
    by (auto simp: insert_column_def split: if_splits)
  from M show 1: "index M = ?idx" by (simp add: replace_bool_def)
  from M n show "\<exists>nums. number_column (index M) = Inr nums \<and>
          columns M = (''Number'', nums) #
            map (\<lambda>c. (c, map replace_cell
                           (case map_of (rev cd) c of
                              None \<Rightarrow> replicate (length (index M)) NaN
                            | Some files \<Rightarrow> isin (index M) (map fst files))))
                (sorted_list_of_set (set (map fst cd)))"
    unfolding 1 by (simp add: replace_bool_def)
  from notin show "''Number'' \<notin> set (map fst cd)" unfolding labels by simp
qed

lemma finite_folders: "finite (folders L)"
proof -
  have "folders L \<subseteq> (\<lambda>p. (fst p, case snd p of Folder fs \<Rightarrow> fs | DriveFile \<Rightarrow> [])) ` set L"
    by (force simp: folders_def)
  then show ?thesis by (rule finite_subset) simp
qed

lemma folder_keys_image: "folder_keys files \<subseteq> (\<lambda>f. projr (clean_filename f)) ` raw_names files"
  by (force simp: folder_keys_def)

lemma all_keys_image: "all_keys L \<subseteq> (\<lambda>f. projr (clean_filename f)) ` all_raw_names L"
  using folder_keys_image by (fastforce simp: all_keys_def all_raw_names_def)

lemma finite_all_raw_names: "finite (all_raw_names L)"
  by (simp add: all_raw_names_def raw_names_def finite_folders)

lemma finite_all_keys: "finite (all_keys L)"
  using all_keys_image by (rule finite_subset) (simp add: finite_all_raw_names)

lemma finite_all_filenames: "finite (all_filenames cd)"
  by (simp add: all_filenames_def)

lemma all_filenames_subset:
  assumes "clean_folders L [] = Inr cd"
  shows "all_filenames cd \<subseteq> all_keys L - {[]}"
proof
  fix k assume "k \<in> all_filenames cd"
  then obtain f d where fd: "(f, d) \<in> set cd" and k: "k \<in> set (map fst d)" and ne: "k \<noteq> []"
    by (force simp: all_filenames_def)
  from clean_folders_entries[OF assms fd] obtain files where
    fl: "(f, files) \<in> folders L" and c: "clean_files files [] = Inr d" by auto
  from clean_files_Inr[OF c] have "set (map fst d) = folder_keys files" .
  with k fl have "k \<in> all_keys L" by (force simp: all_keys_def)
  with ne show "k \<in> all_keys L - {[]}" by simp
qed

lemma clean_folders_dict_nil:
  assumes "is_dict L" "clean_folders L [] = Inr cd"
  shows "distinct (map fst cd)"
    and "(f, files) \<in> folders L \<Longrightarrow> \<exists>d. (f, d) \<in> set cd \<and> clean_files files [] = Inr d"
  using clean_folders_dict[of L "[]" cd] assms by (simp_all add: is_dict_def)

lemma all_filenames_dict:
  assumes "is_dict L" "clean_folders L [] = Inr cd"
  shows "all_filenames cd = all_keys L - {[]}"
proof
  show "all_filenames cd \<subseteq> all_keys L - {[]}"
    using all_filenames_subset[OF assms(2)] .
  show "all_keys L - {[]} \<subseteq> all_filenames cd"
  proof
    fix k assume "k \<in> all_keys L - {[]}"
    then obtain f files where fl: "(f, files) \<in> folders L" and k: "k \<in> folder_keys files" and ne: "k \<noteq> []"
      by (auto simp: all_keys_def)
    obtain d where m: "(f, d) \<in> set cd" and d: "clean_files files [] = Inr d"
      using clean_folders_dict_nil(2)[OF assms fl] by blast
    from clean_files_Inr[OF d] have "set (map fst d) = folder_keys files" .
    with k m ne show "k \<in> all_filenames cd"
      by (force simp: all_filenames_def)
  qed
qed

lemma cleaned_lookup_dict:
  assumes "is_dict L" "clean_folders L [] = Inr cd" "(f, files) \<in> folders L"
  shows "\<exists>d. map_of (rev cd) f = Some d \<and> set (map fst d) = folder_keys files"
proof -
  obtain d where m: "(f, d) \<in> set cd" and d: "clean_files files [] = Inr d"
    using clean_folders_dict_nil(2)[OF assms] by blast
  have dist: "distinct (map fst cd)" using assms(1,2) by (rule clean_folders_dict_nil(1))
  from dist m have "map_of cd f = Some d" by simp
  with dist clean_files_Inr[OF d] show ?thesis by (simp add: map_of_rev_distinct)
qed

lemma create_file_matrix_cleaned:
  "create_file_matrix L = Inr M \<Longrightarrow> \<exists>cd. clean_folders L [] = Inr cd"
  by (cases "clean_folders L []") (simp_all add: create_file_matrix_def)

lemma create_file_matrix_index:
  assumes "create_file_matrix L = Inr M"
  shows "\<exists>cd. clean_folders L [] = Inr cd \<and> index M = sorted_list_of_set (all_filenames cd)"
proof -
  obtain cd where cd: "clean_folders L [] = Inr cd"
    using create_file_matrix_cleaned[OF assms] by blast
  from create_file_matrix_struct(1)[OF cd assms] cd show ?thesis by blast
qed

lemma create_file_matrix_columns:
  assumes "create_file_matrix L = Inr M"
  shows "map fst (columns M) = ''Number'' # sorted_list_of_set (folder_names L)"
    and "''Number'' \<notin> folder_names L"
proof -
  obtain cd where cd: "clean_folders L [] = Inr cd"
    using create_file_matrix_cleaned[OF assms] by blast
  have k': "set (map fst cd) = folder_names L"
    using clean_folders_keys[OF cd] by simp
  from create_file_matrix_struct(2)[OF cd assms] obtain nums where
    "columns M = (''Number'', nums) #
            map (\<lambda>c. (c, map replace_cell
                           (case map_of (rev cd) c of
                              None \<Rightarrow> replicate (length (index M)) NaN
                            | Some files \<Rightarrow> isin (index M) (map fst files))))
                (sorted_list_of_set (set (map fst cd)))" by blast
  then have "map fst (columns M) = ''Number'' # sorted_list_of_set (set (map fst cd))"
    by (simp add: comp_def del: set_map)
  then show "map fst (columns M) = ''Number'' # sorted_list_of_set (folder_names L)"
    unfolding k' .
  from create_file_matrix_struct(3)[OF cd assms] show "''Number'' \<notin> folder_names L"
    unfolding k' .
qed

lemma finite_folder_names: "finite (folder_names L)"
  by (simp add: folder_names_def finite_folders)

lemma create_file_matrix_column:
  assumes "is_dict L" "create_file_matrix L = Inr M" "(f, files) \<in> folders L"
  shows "column M f = Some (map (\<lambda>row. CStr (if row \<in> folder_keys files then ''yes'' else ''no'')) (index M))"
proof -
  obtain cd where cd: "clean_folders L [] = Inr cd"
    using create_file_matrix_cleaned[OF assms(2)] by blast
  obtain d where d: "map_of (rev cd) f = Some d" "set (map fst d) = folder_keys files"
    using cleaned_lookup_dict[OF assms(1) cd assms(3)] by blast
  have fin: "f \<in> folder_names L" using assms(3) by (force simp: folder_names_def)
  with create_file_matrix_columns(2)[OF assms(2)] have ne: "f \<noteq> ''Number''" by auto
  have keys: "set (map fst cd) = folder_names L"
    using clean_folders_keys[OF cd] by simp
  let ?g = "\<lambda>c. map replace_cell
                           (case map_of (rev cd) c of
                              None \<Rightarrow> replicate (length (index M)) NaN
                            | Some files \<Rightarrow> isin (index M) (map fst files))"
  from create_file_matrix_struct(2)[OF cd assms(2)] obtain nums where
    cols: "columns M = (''Number'', nums) # map (\<lambda>c. (c, ?g c)) (sorted_list_of_set (set (map fst cd)))"
    by blast
  have mem: "f \<in> set (sorted_list_of_set (set (map fst cd)))"
    unfolding keys using fin finite_folder_names by simp
  have "map_of (map (\<lambda>c. (c, ?g c)) (sorted_list_of_set (set (map fst cd)))) f = Some (?g f)"
    using mem by (simp add: map_of_map_restrict restrict_map_def del: set_map)
  with ne have "column M f = Some (?g f)"
    unfolding column_def cols by simp
  moreover have "?g f = map (\<lambda>row. CStr (if row \<in> folder_keys files then ''yes'' else ''no'')) (index M)"
    unfolding d(1) option.case isin_def d(2)[symmetric] by (simp del: set_map)
  ultimately show ?thesis by simp
qed

lemma count_yes:
  "distinct idx \<Longrightarrow>
   length (filter (\<lambda>c. c = CStr ''yes'') (map (\<lambda>row. CStr (if row \<in> K then ''yes'' else ''no'')) idx))
   = card (set idx \<inter> K)"
proof -
  assume dist: "distinct idx"
  have "filter (\<lambda>c. c = CStr ''yes'') (map (\<lambda>row. CStr (if row \<in> K then ''yes'' else ''no'')) idx)
        = map (\<lambda>row. CStr (if row \<in> K then ''yes'' else ''no'')) (filter (\<lambda>row. row \<in> K) idx)"
    by (induction idx) auto
  then have "length (filter (\<lambda>c. c = CStr ''yes'') (map (\<lambda>row. CStr (if row \<in> K then ''yes'' else ''no'')) idx))
        = length (filter (\<lambda>row. row \<in> K) idx)" by simp
  also have "\<dots> = card (set (filter (\<lambda>row. row \<in> K) idx))"
    using dist distinct_card[of "filter (\<lambda>row. row \<in> K) idx"] by (simp del: set_filter)
  also have "set (filter (\<lambda>row. row \<in> K) idx) = set idx \<inter> K" by auto
  finally show ?thesis .
qed

lemma length_filter_key:
  "distinct (map fst xs) \<Longrightarrow> k \<in> set (map fst xs) \<Longrightarrow>
   length (filter (\<lambda>p. fst p \<noteq> k) xs) + 1 = length xs"
proof (induction xs)
  case Nil
  then show ?case by simp
next
  case (Cons p xs)
  show ?case
  proof (cases "fst p = k")
    case True
    with Cons.prems have "k \<notin> fst ` set xs" by auto
    then have "filter (\<lambda>p. fst p \<noteq> k) xs = xs" by (auto simp: filter_id_conv)
    with True show ?thesis by simp
  next
    case False
    with Cons show ?thesis by auto
  qed
qed

lemma clean_filename_form:
  assumes "clean_filename f = Inr k" "k \<noteq> []"
  shows "starts_with_digit f" and "clean_name f \<noteq> []"
    and "k = decimal (digits_val (takeWhile isdigit f)) @ '' '' @ clean_name f"
    and "length (takeWhile isdigit f) \<le> max_str_digits"
  using assms by (auto simp: clean_filename_eq split: if_splits)

lemma leading_number_length:
  assumes "starts_with_digit f"
  shows "length (decimal (digits_val (takeWhile isdigit f))) \<le> length (takeWhile isdigit f)"
proof (rule decimal_length)
  show "takeWhile isdigit f \<noteq> []"
    using assms by (cases f) (simp_all add: starts_with_digit_def)
  show "\<forall>c\<in>set (takeWhile isdigit f). isdigit c" by (auto dest: set_takeWhileD)
qed

lemma decimal_digits:
  assumes "0 \<le> N"
  shows "decimal N \<noteq> []" and "\<forall>c\<in>set (decimal N). isdigit c" and "digits_val (decimal N) = N"
  using assms str_digits_props[of N] by (simp_all add: decimal_def)

lemma key_first_token:
  assumes "0 \<le> N" "length (decimal N) \<le> max_str_digits"
  shows "first_token (decimal N @ '' '' @ name) = decimal N"
    and "py_int (first_token (decimal N @ '' '' @ name)) = Inr N"
    and "N < 2 ^ 63 \<Longrightarrow> astype_int (first_token (decimal N @ '' '' @ name)) = Inr N"
    and "2 ^ 63 \<le> N \<Longrightarrow> astype_int (first_token (decimal N @ '' '' @ name)) = Inl OverflowError"
proof -
  show 1: "first_token (decimal N @ '' '' @ name) = decimal N"
    using decimal_digits(2)[OF assms(1)] by (rule first_token_digits)
  show 2: "py_int (first_token (decimal N @ '' '' @ name)) = Inr N"
    unfolding 1 using assms by (rule py_int_decimal)
  show "astype_int (first_token (decimal N @ '' '' @ name)) = Inr N" if "N < 2 ^ 63"
    using that assms(1) unfolding astype_int_def 2 by simp
  show "astype_int (first_token (decimal N @ '' '' @ name)) = Inl OverflowError" if "2 ^ 63 \<le> N"
    using that unfolding astype_int_def 2 by simp
qed

lemma leading_number_nonneg: "0 \<le> digits_val (takeWhile isdigit f)"
  by (rule digits_val_nonneg) (auto dest: set_takeWhileD)

lemma surviving_key:
  assumes "clean_folders L [] = Inr cd" "k \<in> all_filenames cd"
  shows "\<exists>f. f \<in> all_raw_names L \<and> clean_filename f = Inr k \<and> k \<noteq> []"
proof -
  from all_filenames_subset[OF assms(1)] assms(2) have "k \<in> all_keys L" "k \<noteq> []" by auto
  then show ?thesis
    by (auto simp: all_keys_def all_raw_names_def folder_keys_def)
qed

lemma number_column_ok:
  "\<forall>k\<in>set ks. \<exists>N. astype_int (first_token k) = Inr N \<Longrightarrow>
   number_column ks = Inr (map (\<lambda>k. CInt (projr (astype_int (first_token k)))) ks)"
  by (induction ks) auto

lemma number_column_overflow:
  "\<forall>k\<in>set ks. (\<exists>N. astype_int (first_token k) = Inr N) \<or> astype_int (first_token k) = Inl OverflowError \<Longrightarrow>
   \<exists>k\<in>set ks. astype_int (first_token k) = Inl OverflowError \<Longrightarrow>
   number_column ks = Inl OverflowError"
proof (induction ks)
  case Nil
  then show ?case by simp
next
  case (Cons k ks)
  show ?case
  proof (cases "astype_int (first_token k)")
    case (Inl e)
    with Cons.prems(1) have "e = OverflowError" by auto
    with Inl show ?thesis by simp
  next
    case (Inr n)
    with Cons.prems(2) have "\<exists>k\<in>set ks. astype_int (first_token k) = Inl OverflowError" by auto
    with Cons have "number_column ks = Inl OverflowError" by simp
    with Inr show ?thesis by simp
  qed
qed

lemma create_file_matrix_unfold:
  assumes "clean_folders L [] = Inr cd"
  shows "create_file_matrix L =
     (case number_column (sorted_list_of_set (all_filenames cd)) of
        Inl e \<Rightarrow> Inl e
      | Inr numbers \<Rightarrow>
          insert_column ''Number'' numbers
            (replace_bool
              \<lparr>index = sorted_list_of_set (all_filenames cd),
               columns = map (\<lambda>c. (c, case map_of (rev cd) c of
                     None \<Rightarrow> replicate (length (sorted_list_of_set (all_filenames cd))) NaN
                   | Some files \<Rightarrow> isin (sorted_list_of_set (all_filenames cd)) (map fst files)))
                 (sorted_list_of_set (set (map fst cd)))\<rparr>))"
proof -
  let ?idx = "sorted_list_of_set (all_filenames cd)"
  let ?cs = "sorted_list_of_set (set (map fst cd))"
  let ?cols = "map (\<lambda>c. (c, case map_of (rev cd) c of
                               None \<Rightarrow> replicate (length ?idx) NaN
                             | Some files \<Rightarrow> isin ?idx (map fst files))) ?cs"
  have fc: "fill_columns cd (new_frame ?idx ?cs) = \<lparr>index = ?idx, columns = ?cols\<rparr>"
    unfolding new_frame_def by (rule fill_columns_eq) simp_all
  have idx: "index (replace_bool \<lparr>index = ?idx, columns = ?cols\<rparr>) = ?idx"
    by (simp add: replace_bool_def)
  show ?thesis
    by (simp only: create_file_matrix_def Let_def assms sum.case fc idx)
qed

lemma create_file_matrix_returns:
  assumes cd: "clean_folders L [] = Inr cd"
    and nums: "\<forall>row\<in>all_filenames cd. \<exists>N. astype_int (first_token row) = Inr N"
    and nn: "''Number'' \<notin> folder_names L"
  shows "\<exists>M. create_file_matrix L = Inr M
           \<and> column M ''Number'' =
               Some (map (\<lambda>row. CInt (projr (astype_int (first_token row)))) (index M))"
proof -
  let ?idx = "sorted_list_of_set (all_filenames cd)"
  let ?nums = "map (\<lambda>row. CInt (projr (astype_int (first_token row)))) ?idx"
  have n: "number_column ?idx = Inr ?nums"
    using nums by (intro number_column_ok) (simp add: finite_all_filenames)
  have keys: "set (map fst cd) = folder_names L"
    using clean_folders_keys[OF cd] by simp
  let ?m = "replace_bool
              \<lparr>index = ?idx,
               columns = map (\<lambda>c. (c, case map_of (rev cd) c of
                     None \<Rightarrow> replicate (length ?idx) NaN
                   | Some files \<Rightarrow> isin ?idx (map fst files)))
                 (sorted_list_of_set (set (map fst cd)))\<rparr>"
  have labels: "set (map fst (columns ?m)) = folder_names L"
    unfolding keys using finite_folder_names[of L] by (simp add: replace_bool_def comp_def)
  have i: "index ?m = ?idx" by (simp add: replace_bool_def)
  have "create_file_matrix L = insert_column ''Number'' ?nums ?m"
    unfolding create_file_matrix_unfold[OF cd] n by simp
  also have "\<dots> = Inr (?m\<lparr>columns := (''Number'', ?nums) # columns ?m\<rparr>)"
    using nn unfolding insert_column_def labels by simp
  finally have r: "create_file_matrix L = Inr (?m\<lparr>columns := (''Number'', ?nums) # columns ?m\<rparr>)" .
  have "column (?m\<lparr>columns := (''Number'', ?nums) # columns ?m\<rparr>) ''Number''
        = Some (map (\<lambda>row. CInt (projr (astype_int (first_token row)))) (index (?m\<lparr>columns := (''Number'', ?nums) # columns ?m\<rparr>)))"
    by (simp add: column_def replace_bool_def)
  with r show ?thesis by blast
qed

lemma create_file_matrix_overflow:
  assumes cd: "clean_folders L [] = Inr cd"
    and rows: "\<forall>row\<in>all_filenames cd.
        (\<exists>N. astype_int (first_token row) = Inr N) \<or> astype_int (first_token row) = Inl OverflowError"
    and big: "\<exists>row\<in>all_filenames cd. astype_int (first_token row) = Inl OverflowError"
  shows "create_file_matrix L = Inl OverflowError"
proof -
  have "number_column (sorted_list_of_set (all_filenames cd)) = Inl OverflowError"
    using rows big by (intro number_column_overflow) (simp_all add: finite_all_filenames)
  then show ?thesis unfolding create_file_matrix_unfold[OF cd] by simp
qed

lemma create_file_matrix_number_folder:
  assumes cd: "clean_folders L [] = Inr cd"
    and nums: "\<forall>row\<in>all_filenames cd. \<exists>N. astype_int (first_token row) = Inr N"
    and nn: "''Number'' \<in> folder_names L"
  shows "create_file_matrix L = Inl ValueError"
proof -
  let ?idx = "sorted_list_of_set (all_filenames cd)"
  let ?nums = "map (\<lambda>row. CInt (projr (astype_int (first_token row)))) ?idx"
  have n: "number_column ?idx = Inr ?nums"
    using nums by (intro number_column_ok) (simp add: finite_all_filenames)
  have keys: "set (map fst cd) = folder_names L"
    using clean_folders_keys[OF cd] by simp
  let ?m = "replace_bool
              \<lparr>index = ?idx,
               columns = map (\<lambda>c. (c, case map_of (rev cd) c of
                     None \<Rightarrow> replicate (length ?idx) NaN
                   | Some files \<Rightarrow> isin ?idx (map fst files)))
                 (sorted_list_of_set (set (map fst cd)))\<rparr>"
  have labels: "set (map fst (columns ?m)) = folder_names L"
    unfolding keys using finite_folder_names[of L] by (simp add: replace_bool_def comp_def)
  have "create_file_matrix L = insert_column ''Number'' ?nums ?m"
    unfolding create_file_matrix_unfold[OF cd] n by simp
  also have "\<dots> = Inl ValueError"
    using nn unfolding insert_column_def labels by simp
  finally show ?thesis .
qed

section \<open>Facts about substitution\<close>

lemma greedy_suffix: "u \<in> set (greedy P s) \<Longrightarrow> \<exists>p. s = p @ u"
proof (induction s)
  case Nil
  then show ?case by simp
next
  case (Cons c cs)
  then show ?case by (auto split: if_splits)
qed

lemma greedy_set: "u \<in> set (greedy P s) \<Longrightarrow> set u \<subseteq> set s"
  using greedy_suffix by fastforce

lemma sub_from_id:
  "(\<And>b t. set t \<subseteq> set s \<Longrightarrow> rmatch r b t = []) \<Longrightarrow> sub_from r f b s = s"
proof (induction s arbitrary: b)
  case Nil
  then have "match_at r b [] = None" by (simp add: match_at_def)
  then show ?case by (simp add: sub_from_Nil)
next
  case (Cons c cs)
  have "rmatch r b (c # cs) = []" by (rule Cons.prems) simp
  then have "match_at r b (c # cs) = None" by (simp add: match_at_def)
  moreover have "sub_from r f False cs = cs"
    by (rule Cons.IH) (rule Cons.prems, auto)
  ultimately show ?case by (simp add: sub_from_no_match)
qed

lemma match_at_take: "match_at r b s = Some m \<Longrightarrow> \<exists>k. m = take k s"
  by (auto simp: match_at_def split: list.splits)

lemma sub_from_set:
  assumes "\<And>m. set (f m) \<subseteq> set m \<union> A"
  shows "set (sub_from r f b s) \<subseteq> set s \<union> A"
proof (induction "length s" arbitrary: b s rule: less_induct)
  case less
  show ?case
  proof (cases "match_at r b s")
    case None
    show ?thesis
    proof (cases s)
      case Nil
      with None show ?thesis by (simp add: sub_from_Nil)
    next
      case (Cons c cs)
      have "set (sub_from r f False cs) \<subseteq> set cs \<union> A"
        by (rule less) (simp add: Cons)
      with None Cons show ?thesis by (auto simp: sub_from_no_match)
    qed
  next
    case (Some m)
    obtain k where k: "m = take k s" using match_at_take[OF Some] by blast
    then have ms: "set m \<subseteq> set s" by (simp add: set_take_subset)
    with assms[of m] have fm: "set (f m) \<subseteq> set s \<union> A" by blast
    show ?thesis
    proof (cases "m = []")
      case True
      show ?thesis
      proof (cases s)
        case Nil
        with Some True fm show ?thesis by (simp add: sub_from_Nil)
      next
        case (Cons c cs)
        have "set (sub_from r f False cs) \<subseteq> set cs \<union> A"
          by (rule less) (simp add: Cons)
        moreover have "sub_from r f b s = f m @ c # sub_from r f False cs"
          using Some True Cons by (subst sub_from.simps) simp
        ultimately show ?thesis using fm Cons by auto
      qed
    next
      case False
      then have "length (drop (length m) s) < length s"
        using k by (cases s) auto
      then have "set (sub_from r f False (drop (length m) s)) \<subseteq> set (drop (length m) s) \<union> A"
        by (rule less)
      moreover have "set (drop (length m) s) \<subseteq> set s" by (rule set_drop_subset)
      ultimately show ?thesis
        using fm by (auto simp: sub_from_match[OF Some False])
    qed
  qed
qed

lemma re_sub_delete_set: "set (re_sub r (\<lambda>m. []) s) \<subseteq> set s"
  using sub_from_set[of "\<lambda>m. []" "{}" r True s] by (simp add: re_sub_def)

lemma sub_from_one_delete: "sub_from (ROne P) (\<lambda>m. []) b s = filter (\<lambda>c. \<not> P c) s"
proof (induction s arbitrary: b)
  case Nil
  show ?case by (simp add: sub_from_Nil match_at_def)
next
  case (Cons c cs)
  show ?case
  proof (cases "P c")
    case True
    then have "match_at (ROne P) b (c # cs) = Some [c]" by (simp add: match_at_def)
    from sub_from_match[OF this] True Cons show ?thesis by simp
  next
    case False
    then have "match_at (ROne P) b (c # cs) = None" by (simp add: match_at_def)
    from sub_from_no_match[OF this] False Cons show ?thesis by simp
  qed
qed

lemma match_at_plus:
  "match_at (rplus P) b [] = None"
  "\<not> P c \<Longrightarrow> match_at (rplus P) b (c # cs) = None"
  "P c \<Longrightarrow> match_at (rplus P) b (c # cs) = Some (c # takeWhile P cs)"
proof -
  show "match_at (rplus P) b [] = None" by (simp add: match_at_def rmatch_rplus)
  show "\<not> P c \<Longrightarrow> match_at (rplus P) b (c # cs) = None"
    by (simp add: match_at_def rmatch_rplus)
  assume p: "P c"
  obtain ts where g: "greedy P cs = dropWhile P cs # ts" using greedy_cons by blast
  have "take (length (c # cs) - length (dropWhile P (c # cs))) (c # cs) = takeWhile P (c # cs)"
    by (rule take_length_dropWhile)
  with p g show "match_at (rplus P) b (c # cs) = Some (c # takeWhile P cs)"
    by (simp add: match_at_def rmatch_rplus)
qed

lemma sub_from_plus:
  "sub_from (rplus P) f b [] = []"
  "\<not> P c \<Longrightarrow> sub_from (rplus P) f b (c # cs) = c # sub_from (rplus P) f False cs"
  "P c \<Longrightarrow> sub_from (rplus P) f b (c # cs) =
     f (c # takeWhile P cs) @ sub_from (rplus P) f False (dropWhile P cs)"
proof -
  show "sub_from (rplus P) f b [] = []" by (simp add: sub_from_Nil match_at_plus)
  show "\<not> P c \<Longrightarrow> sub_from (rplus P) f b (c # cs) = c # sub_from (rplus P) f False cs"
    by (simp add: sub_from_no_match match_at_plus)
  assume p: "P c"
  have "drop (length (takeWhile P cs)) cs = dropWhile P cs"
    by (simp add: dropWhile_eq_drop)
  moreover have "match_at (rplus P) b (c # cs) = Some (c # takeWhile P cs)"
    using p by (rule match_at_plus(3))
  ultimately show "sub_from (rplus P) f b (c # cs) =
     f (c # takeWhile P cs) @ sub_from (rplus P) f False (dropWhile P cs)"
    by (simp add: sub_from_match)
qed

lemma space_blank: "isspace (CHR '' '')"
  by (simp add: isspace_def less_eq_char_def)

lemma collapse_single_spaced:
  "single_spaced (sub_from (rplus isspace) (\<lambda>m. '' '') b s)"
proof (induction "length s" arbitrary: b s rule: less_induct)
  case less
  show ?case
  proof (cases s)
    case Nil
    then show ?thesis by (simp add: sub_from_plus)
  next
    case (Cons c cs)
    show ?thesis
    proof (cases "isspace c")
      case False
      have "single_spaced (sub_from (rplus isspace) (\<lambda>m. '' '') False cs)"
        by (rule less) (simp add: Cons)
      with False Cons show ?thesis by (simp add: sub_from_plus)
    next
      case True
      define t where "t = dropWhile isspace cs"
      have "length t < length s" using Cons
        by (simp add: t_def le_imp_less_Suc length_dropWhile_le)
      then have ih: "single_spaced (sub_from (rplus isspace) (\<lambda>m. '' '') False t)"
        by (rule less)
      have t: "t = [] \<or> \<not> isspace (hd t)"
        unfolding t_def by (metis hd_dropWhile)
      have hd: "sub_from (rplus isspace) (\<lambda>m. '' '') False t = []
           \<or> \<not> isspace (hd (sub_from (rplus isspace) (\<lambda>m. '' '') False t))"
      proof (cases t)
        case Nil
        then show ?thesis by (simp add: sub_from_plus)
      next
        case (Cons d ds)
        with t show ?thesis by (simp add: sub_from_plus)
      qed
      have "sub_from (rplus isspace) (\<lambda>m. '' '') b s
            = '' '' @ sub_from (rplus isspace) (\<lambda>m. '' '') False t"
        unfolding t_def Cons using True by (rule sub_from_plus(3))
      with ih hd show ?thesis by (simp add: space_blank)
    qed
  qed
qed

lemma collapse_id: "single_spaced s \<Longrightarrow> sub_from (rplus isspace) (\<lambda>m. '' '') b s = s"
proof (induction s arbitrary: b)
  case Nil
  show ?case by (simp add: sub_from_plus)
next
  case (Cons c cs)
  then have ih: "sub_from (rplus isspace) (\<lambda>m. '' '') False cs = cs" by simp
  show ?case
  proof (cases "isspace c")
    case False
    with ih show ?thesis by (simp add: sub_from_plus)
  next
    case True
    with Cons.prems have c: "c = CHR '' ''" and n: "cs = [] \<or> \<not> isspace (hd cs)" by auto
    from n have "takeWhile isspace cs = []" "dropWhile isspace cs = cs" by (cases cs; simp)+
    with True c ih show ?thesis by (simp add: sub_from_plus(3))
  qed
qed

lemma single_spaced_append:
  "single_spaced (xs @ ys) \<Longrightarrow> single_spaced xs \<and> single_spaced ys"
proof (induction xs)
  case Nil
  then show ?case by simp
next
  case (Cons c xs)
  then show ?case by (cases xs) auto
qed

lemma single_spaced_dropWhile: "single_spaced s \<Longrightarrow> single_spaced (dropWhile P s)"
  using single_spaced_append[of "takeWhile P s" "dropWhile P s"] by simp

lemma single_spaced_rstrip: "single_spaced s \<Longrightarrow> single_spaced (rev (dropWhile P (rev s)))"
proof -
  have "rev (dropWhile P (rev s)) @ rev (takeWhile P (rev s)) = s"
    by (metis rev_append rev_rev_ident takeWhile_dropWhile_id)
  then show "single_spaced s \<Longrightarrow> single_spaced (rev (dropWhile P (rev s)))"
    using single_spaced_append[of "rev (dropWhile P (rev s))" "rev (takeWhile P (rev s))"] by simp
qed

lemma single_spaced_strip: "single_spaced s \<Longrightarrow> single_spaced (strip s)"
  unfolding strip_def by (intro single_spaced_rstrip single_spaced_dropWhile)

lemma lower_char_blank: "lower_char c = CHR '' '' \<longleftrightarrow> c = CHR '' ''"
  by (rule lower_char_eq_low) simp

lemma single_spaced_lower: "single_spaced s \<Longrightarrow> single_spaced (lower s)"
  unfolding lower_def
  by (induction s) (auto simp: lower_char_blank hd_map)

section \<open>What every cleaned name looks like\<close>

lemma set_rstrip_chars: "set (rstrip_chars cs s) \<subseteq> set s"
  unfolding rstrip_chars_def by (metis set_rev set_dropWhileD subsetI)

lemma re_sub_camel_set:
  "set (re_sub r (\<lambda>m. take 1 m @ '' '' @ drop 1 m) s) \<subseteq> set s \<union> {CHR '' ''}"
proof -
  have "set (take 1 m @ '' '' @ drop 1 m) \<subseteq> set m \<union> {CHR '' ''}" for m :: string
    using set_take_subset[of 1 m] set_drop_subset[of 1 m] by auto
  then show ?thesis unfolding re_sub_def by (rule sub_from_set)
qed

lemma re_sub_blank_set: "set (re_sub r (\<lambda>m. '' '') s) \<subseteq> set s \<union> {CHR '' ''}"
  unfolding re_sub_def by (rule sub_from_set) simp

lemma re_sub_punct: "re_sub pat_punct (\<lambda>m. []) s = filter (\<lambda>c. \<not> ispunct c) s"
  by (simp add: re_sub_def pat_punct_def sub_from_one_delete)

text \<open>The steps after the instrument and trailer rules, applied to a string.\<close>

lemma clean_name_tail:
  "\<exists>t. clean_name f =
    lower (strip (rstrip_chars {CHR ''-''} (strip
      (re_sub pat_spaces (\<lambda>m. '' '')
        (re_sub pat_camel (\<lambda>m. take 1 m @ '' '' @ drop 1 m)
          (re_sub pat_punct (\<lambda>m. []) t))))))
    \<and> CHR ''_'' \<notin> set t"
proof -
  let ?s5 = "replace_char (CHR ''_'') (CHR '' '')
     (re_sub pat_oclock (\<lambda>m. []) (re_sub pat_prefix (\<lambda>m. []) (rsplit_dot_head f)))"
  let ?t = "re_sub pat_trailer (\<lambda>m. []) (re_sub pat_suffix (\<lambda>m. []) ?s5)"
  have "CHR ''_'' \<notin> set ?s5" by (auto simp: replace_char_def)
  moreover have "set ?t \<subseteq> set ?s5"
    using re_sub_delete_set[of pat_trailer "re_sub pat_suffix (\<lambda>m. []) ?s5"]
      re_sub_delete_set[of pat_suffix ?s5] by blast
  ultimately have "CHR ''_'' \<notin> set ?t" by blast
  moreover have "clean_name f =
    lower (strip (rstrip_chars {CHR ''-''} (strip
      (re_sub pat_spaces (\<lambda>m. '' '')
        (re_sub pat_camel (\<lambda>m. take 1 m @ '' '' @ drop 1 m)
          (re_sub pat_punct (\<lambda>m. []) ?t))))))"
    by (simp add: clean_name_def Let_def)
  ultimately show ?thesis by blast
qed

lemma blank_not_punct: "\<not> ispunct (CHR '' '')"
  by (simp add: ispunct_def isdigit_def less_eq_char_def)

lemma lower_char_underscore: "lower_char c = CHR ''_'' \<longleftrightarrow> c = CHR ''_''"
  by (rule lower_char_eq_low) simp

lemma clean_name_invariants:
  shows "\<forall>c\<in>set (clean_name f). \<not> ispunct c"
    and "CHR ''_'' \<notin> set (clean_name f)"
    and "single_spaced (clean_name f)"
    and "\<forall>c\<in>set (clean_name f). \<not> isupper c"
    and "lower (clean_name f) = clean_name f"
proof -
  obtain t where cn: "clean_name f =
    lower (strip (rstrip_chars {CHR ''-''} (strip
      (re_sub pat_spaces (\<lambda>m. '' '')
        (re_sub pat_camel (\<lambda>m. take 1 m @ '' '' @ drop 1 m)
          (re_sub pat_punct (\<lambda>m. []) t))))))"
    and us: "CHR ''_'' \<notin> set t"
    using clean_name_tail by blast
  define s8 where "s8 = re_sub pat_punct (\<lambda>m. []) t"
  define s9 where "s9 = re_sub pat_camel (\<lambda>m. take 1 m @ '' '' @ drop 1 m) s8"
  define s10 where "s10 = re_sub pat_spaces (\<lambda>m. '' '') s9"
  define s11 where "s11 = strip (rstrip_chars {CHR ''-''} (strip s10))"
  have cn': "clean_name f = lower s11" by (simp add: cn s8_def s9_def s10_def s11_def)
  have 8: "set s8 \<subseteq> set t" "\<forall>c\<in>set s8. \<not> ispunct c"
    by (auto simp: s8_def re_sub_punct)
  have 9: "set s9 \<subseteq> set s8 \<union> {CHR '' ''}"
    unfolding s9_def by (rule re_sub_camel_set)
  have 10: "set s10 \<subseteq> set s9 \<union> {CHR '' ''}"
    unfolding s10_def by (rule re_sub_blank_set)
  have 11: "set s11 \<subseteq> set s10"
    unfolding s11_def using set_strip set_rstrip_chars by (meson subset_trans)
  have sub: "set s11 \<subseteq> set s8 \<union> {CHR '' ''}" using 9 10 11 by blast
  have p11: "\<forall>c\<in>set s11. \<not> ispunct c" using sub 8(2) blank_not_punct by blast
  have u11: "CHR ''_'' \<notin> set s11" using sub 8(1) us by auto
  have "single_spaced s10"
    unfolding s10_def re_sub_def pat_spaces_def by (rule collapse_single_spaced)
  then have ss11: "single_spaced s11"
    unfolding s11_def rstrip_chars_def
    by (intro single_spaced_strip single_spaced_rstrip)
  show "\<forall>c\<in>set (clean_name f). \<not> ispunct c"
    using p11 by (auto simp: cn' lower_def)
  show "CHR ''_'' \<notin> set (clean_name f)"
  proof
    assume "CHR ''_'' \<in> set (clean_name f)"
    then obtain c where "c \<in> set s11" "lower_char c = CHR ''_''"
      by (auto simp: cn' lower_def)
    with u11 show False by (simp add: lower_char_underscore)
  qed
  show "single_spaced (clean_name f)"
    unfolding cn' using ss11 by (rule single_spaced_lower)
  show "\<forall>c\<in>set (clean_name f). \<not> isupper c"
    by (auto simp: cn' lower_def)
  show "lower (clean_name f) = clean_name f"
    by (simp add: cn' lower_def)
qed

section \<open>Cleaning a canonical key again\<close>

lemma rsplit_dot_head_pdf: "rsplit_dot_head (x @ ''.pdf'') = x"
  by (simp add: rsplit_dot_head_def)

lemma rmatch_one_nil: "\<forall>c\<in>set s. \<not> P c \<Longrightarrow> rmatch (ROne P) b s = []"
  by (cases s) auto

lemma rmatch_one_set: "t \<in> set (rmatch (ROne P) b s) \<Longrightarrow> set t \<subseteq> set s"
  by (cases s) (auto split: if_splits)

lemma concat_map_nil: "(\<And>x. x \<in> set xs \<Longrightarrow> f x = []) \<Longrightarrow> concat (map f xs) = []"
  by (induction xs) auto

lemma rmatch_seq_nil: "rmatch r1 b s = [] \<Longrightarrow> rmatch (RSeq r1 r2) b s = []"
  by simp

lemma rmatch_trailer_nil:
  assumes "CHR ''('' \<notin> set s" "CHR ''-'' \<notin> set s"
  shows "rmatch pat_trailer b s = []"
proof -
  have *: "rmatch (RSeq (ROne (\<lambda>c. c = CHR ''('' \<or> c = CHR ''-'')) r) b' u = []"
    if "u \<in> set (rmatch (RStar isspace) b s)" for u b' r
  proof -
    from that have "u \<in> set (greedy isspace s)" by simp
    from greedy_set[OF this] assms have "\<forall>c\<in>set u. \<not> (c = CHR ''('' \<or> c = CHR ''-'')" by auto
    then have "rmatch (ROne (\<lambda>c. c = CHR ''('' \<or> c = CHR ''-'')) b' u = []"
      by (rule rmatch_one_nil)
    then show ?thesis by (rule rmatch_seq_nil)
  qed
  show ?thesis
    unfolding pat_trailer_def
    by (subst rmatch.simps(6)) (rule concat_map_nil, erule *)
qed

lemma re_sub_trailer_id:
  assumes "CHR ''('' \<notin> set s" "CHR ''-'' \<notin> set s"
  shows "re_sub pat_trailer f s = s"
  unfolding re_sub_def
proof (rule sub_from_id)
  fix b t assume "set t \<subseteq> set s"
  with assms show "rmatch pat_trailer b t = []" by (intro rmatch_trailer_nil) auto
qed

lemma rmatch_camel_nil:
  assumes "\<forall>c\<in>set s. \<not> isupper_ascii c"
  shows "rmatch pat_camel b s = []"
proof -
  have *: "rmatch (ROne isupper_ascii) b' t = []" if "t \<in> set (rmatch (ROne islower_ascii) b s)" for t b'
    using rmatch_one_set[OF that] assms by (intro rmatch_one_nil) auto
  show ?thesis
    unfolding pat_camel_def
    by (subst rmatch.simps(6)) (rule concat_map_nil, erule *)
qed

lemma re_sub_camel_id:
  assumes "\<forall>c\<in>set s. \<not> isupper_ascii c"
  shows "re_sub pat_camel f s = s"
  unfolding re_sub_def
proof (rule sub_from_id)
  fix b t assume "set t \<subseteq> set s"
  with assms show "rmatch pat_camel b t = []" by (intro rmatch_camel_nil) auto
qed

lemma re_sub_oclock_id:
  assumes "s = [] \<or> \<not> isdigit (hd s)"
  shows "re_sub pat_oclock f s = s"
proof (cases s)
  case Nil
  then show ?thesis
    by (simp add: re_sub_def sub_from_Nil match_at_def pat_oclock_def rmatch_rplus)
next
  case (Cons c cs)
  with assms have "\<not> isdigit c" by simp
  then have "match_at pat_oclock True (c # cs) = None"
    by (simp add: match_at_def pat_oclock_def rmatch_rplus)
  then have "sub_from pat_oclock f True (c # cs) = c # sub_from pat_oclock f False cs"
    by (rule sub_from_no_match)
  also have "sub_from pat_oclock f False cs = cs"
    unfolding pat_oclock_def by (rule sub_from_bol_False)
  finally show ?thesis by (simp add: re_sub_def Cons)
qed

lemma re_sub_prefix_key:
  assumes d: "d \<noteq> []" "\<forall>c\<in>set d. isdigit c"
    and n: "n \<noteq> []" "\<not> isspace (hd n)" "hd n \<noteq> CHR ''-''" "hd n \<noteq> CHR ''_''"
  shows "re_sub pat_prefix (\<lambda>m. []) (d @ '' '' @ n) = n"
proof -
  obtain d0 ds where dd: "d = d0 # ds" using d(1) by (cases d) auto
  let ?sep = "\<lambda>c. c = CHR ''-'' \<or> c = CHR ''_'' \<or> isspace c"
  let ?s = "d @ '' '' @ n"
  have nd: "\<not> isdigit (CHR '' '')" using digit_not_space space_blank by blast
  have "dropWhile isdigit (ds @ '' '' @ n) = '' '' @ n"
    using d(2) nd by (simp add: dd dropWhile_append3)
  then obtain ts1 where g1: "greedy isdigit (ds @ '' '' @ n) = ('' '' @ n) # ts1"
    using greedy_cons[of isdigit "ds @ '' '' @ n"] by auto
  have "dropWhile isspace ('' '' @ n) = n"
    using n(1,2) space_blank by (cases n) auto
  then obtain ts2 where g2: "greedy isspace ('' '' @ n) = n # ts2"
    using greedy_cons[of isspace "'' '' @ n"] by auto
  have "dropWhile ?sep n = n" using n by (cases n) auto
  then obtain ts3 where g3: "greedy ?sep n = n # ts3"
    using greedy_cons[of ?sep n] by auto
  have "\<exists>ts. rmatch pat_prefix True ?s = n # ts"
    using d(2) g1 g2 g3 by (simp add: pat_prefix_def rmatch_rplus dd)
  then have "match_at pat_prefix True ?s = Some (take (length ?s - length n) ?s)"
    by (auto simp: match_at_def)
  then have m: "match_at pat_prefix True ?s = Some (d @ '' '')" by simp
  have "sub_from pat_prefix (\<lambda>m. []) True ?s
        = [] @ sub_from pat_prefix (\<lambda>m. []) False (drop (length (d @ '' '')) ?s)"
    by (rule sub_from_match[OF m]) simp
  also have "drop (length (d @ '' '')) ?s = n" by simp
  also have "sub_from pat_prefix (\<lambda>m. []) False n = n"
    unfolding pat_prefix_def by (rule sub_from_bol_False)
  finally show ?thesis by (simp add: re_sub_def)
qed

lemma replace_char_id: "a \<notin> set s \<Longrightarrow> replace_char a b s = s"
  by (induction s) (auto simp: replace_char_def)

lemma rstrip_chars_id: "s = [] \<or> last s \<notin> cs \<Longrightarrow> rstrip_chars cs s = s"
  unfolding rstrip_chars_def using dropWhile_rev_id[of s "\<lambda>c. c \<in> cs"] by simp

lemma takeWhile_digits_key:
  "\<forall>c\<in>set d. isdigit c \<Longrightarrow> takeWhile isdigit (d @ '' '' @ r) = d"
  using digit_not_space space_blank by (auto simp: takeWhile_tail)

text \<open>A cleaned name that the instrument and trailer rules leave alone is a fixed point.\<close>

lemma clean_name_key:
  assumes d: "d \<noteq> []" "\<forall>c\<in>set d. isdigit c"
    and ne: "clean_name f \<noteq> []"
    and suffix: "re_sub pat_suffix (\<lambda>m. []) (clean_name f) = clean_name f"
    and dash: "CHR ''-'' \<notin> set (clean_name f)" and paren: "CHR ''('' \<notin> set (clean_name f)"
  shows "clean_name ((d @ '' '' @ clean_name f) @ ''.pdf'') = clean_name f"
proof -
  define n where "n = clean_name f"
  note inv = clean_name_invariants[of f, folded n_def]
  note ends = clean_name_ends[OF ne, folded n_def]
  from ne have n0: "n \<noteq> []" by (simp add: n_def)
  from dash paren have dp: "CHR ''-'' \<notin> set n" "CHR ''('' \<notin> set n" by (simp_all add: n_def)
  have hdn: "hd n \<in> set n" and lastn: "last n \<in> set n" using n0 by simp_all
  have h1: "hd n \<noteq> CHR ''-''" using hdn dp(1) by auto
  have h2: "hd n \<noteq> CHR ''_''" using hdn inv(2) by auto
  have h3: "\<not> isdigit (hd n)" using hdn inv(1) by (auto simp: ispunct_def)
  have 3: "re_sub pat_prefix (\<lambda>m. []) (d @ '' '' @ n) = n"
    using d n0 ends(1) h1 h2 by (rule re_sub_prefix_key)
  have 4: "re_sub pat_oclock (\<lambda>m. []) n = n"
    using h3 by (intro re_sub_oclock_id) simp
  have 5: "replace_char (CHR ''_'') (CHR '' '') n = n"
    using inv(2) by (rule replace_char_id)
  have 6: "re_sub pat_suffix (\<lambda>m. []) n = n"
    using suffix by (simp add: n_def)
  have 7: "re_sub pat_trailer (\<lambda>m. []) n = n"
    using dp(2) dp(1) by (rule re_sub_trailer_id)
  have 8: "re_sub pat_punct (\<lambda>m. []) n = n"
    using inv(1) by (simp add: re_sub_punct filter_id_conv)
  have "\<forall>c\<in>set n. \<not> isupper_ascii c" using inv(4) by (auto simp: isupper_def)
  then have 9: "re_sub pat_camel (\<lambda>m. take 1 m @ '' '' @ drop 1 m) n = n"
    by (rule re_sub_camel_id)
  have 10: "re_sub pat_spaces (\<lambda>m. '' '') n = n"
    unfolding re_sub_def pat_spaces_def using inv(3) by (rule collapse_id)
  have 11: "strip n = n" using ends by (intro strip_id) simp
  have 12: "rstrip_chars {CHR ''-''} n = n"
    using lastn dp(1) by (intro rstrip_chars_id) auto
  have 13: "lower n = n" by (rule inv(5))
  have "clean_name ((d @ '' '' @ n) @ ''.pdf'') = n"
    by (simp only: clean_name_def[of "(d @ '' '' @ n) @ ''.pdf''"] Let_def rsplit_dot_head_pdf
        3 4 5 6 7 8 9 10 11 12 13)
  then show ?thesis by (simp only: n_def)
qed

section \<open>The claims\<close>

lemma starts_with_digit_replicate:
  "0 < n \<Longrightarrow> starts_with_digit (replicate n c @ r) = isdigit c"
  by (cases n) (simp_all add: starts_with_digit_def)

lemma takeWhile_replicate_digit:
  "isdigit c \<Longrightarrow> takeWhile isdigit (replicate n c @ CHR '' '' # r) = replicate n c"
  using takeWhile_digits_key[of "replicate n c" r] by simp

text \<open>
  Claim C1, as the code has it. \<open>clean_filename\<close> applied to \<open>7 O'Clock Shadow.wav\<close> returns
  \<open>7 oclock shadow\<close>: the prefix rule takes the leading \<open>7\<close> and the blank away first, so
  the \<open>O'Clock\<close> rule, which asks for a digit run in front of the phrase, finds nothing
  to strip in \<open>O'Clock Shadow\<close>; the apostrophe goes with the punctuation and the rest is
  put in lower case. The rule does strip the phrase when a second number stands in
  front of it, as in \<open>7 5 O'Clock Shadow.wav\<close>.
\<close>

theorem clean_filename_oclock_kept:
  "clean_filename ''7 O'Clock Shadow.wav'' = Inr ''7 oclock shadow''
   \<and> re_sub pat_prefix (\<lambda>m. []) ''7 O'Clock Shadow'' = ''O'Clock Shadow''
   \<and> re_sub pat_oclock (\<lambda>m. []) ''O'Clock Shadow'' = ''O'Clock Shadow''
   \<and> clean_filename ''7 5 O'Clock Shadow.wav'' = Inr ''7 shadow''"
  by code_simp

text \<open>
  Claim C1 as the specification states it fails: the result for \<open>7 O'Clock Shadow.wav\<close>
  is not \<open>7 shadow\<close>.
\<close>

theorem clean_filename_oclock_counterexample:
  "clean_filename ''7 O'Clock Shadow.wav'' \<noteq> Inr ''7 shadow''"
  by code_simp

text \<open>
  Claim C7. \<open>clean_filename\<close> applied to \<open>12_Song_Name_Alto.pdf\<close> returns \<open>12 song name\<close>:
  extension and number prefix are stripped, the underscores become blanks, and the
  instrument rule cuts at \<open>Alto\<close> before the rule for parentheses and dashes runs.
\<close>

theorem clean_filename_song_name_alto:
  "clean_filename ''12_Song_Name_Alto.pdf'' = Inr ''12 song name''
   \<and> re_sub pat_suffix (\<lambda>m. []) ''Song Name Alto'' = ''Song Name''
   \<and> re_sub pat_trailer (\<lambda>m. []) ''Song Name'' = ''Song Name''
   \<and> clean_filename ''12_Song_Name_Alto (live).pdf'' = Inr ''12 song name''"
  by code_simp

text \<open>
  Claim C6, as the code has it. \<open>clean_filename\<close> returns on every filename whose
  leading digit run has at most 4300 digits, and raises \<open>ValueError\<close>, from \<open>int\<close>, on
  every other one. It returns the empty string exactly when the filename does not
  start with a decimal digit or, the digit run being within the limit, the
  normalisation steps leave an empty name. A filename without a leading digit is
  discarded whatever else it holds; \<open>No Number Here.mp3\<close> is, and so are \<open>12.pdf\<close> and
  \<open>7 (live).mp3\<close>, whose names the steps empty.
\<close>

theorem clean_filename_discard:
  "max_str_digits = 4300
   \<and> (length (takeWhile isdigit f) \<le> max_str_digits \<longrightarrow> (\<exists>k. clean_filename f = Inr k))
   \<and> (max_str_digits < length (takeWhile isdigit f) \<longrightarrow> clean_filename f = Inl ValueError)
   \<and> (clean_filename f = Inr [] \<longleftrightarrow>
        \<not> starts_with_digit f \<or> (length (takeWhile isdigit f) \<le> max_str_digits \<and> clean_name f = []))
   \<and> (\<not> starts_with_digit f \<longrightarrow> clean_filename f = Inr [])
   \<and> clean_filename ''No Number Here.mp3'' = Inr []
   \<and> clean_filename ''12.pdf'' = Inr []
   \<and> clean_filename ''7 (live).mp3'' = Inr []"
proof -
  have 0: "max_str_digits < length (takeWhile isdigit f) \<Longrightarrow> starts_with_digit f"
    by (cases f) (auto simp: starts_with_digit_def split: if_splits)
  have 1: "length (takeWhile isdigit f) \<le> max_str_digits \<longrightarrow> (\<exists>k. clean_filename f = Inr k)"
    by (simp add: clean_filename_eq)
  have 2: "max_str_digits < length (takeWhile isdigit f) \<longrightarrow> clean_filename f = Inl ValueError"
    using 0 by (simp add: clean_filename_eq)
  have 3: "clean_filename f = Inr [] \<longleftrightarrow>
        \<not> starts_with_digit f \<or> (length (takeWhile isdigit f) \<le> max_str_digits \<and> clean_name f = [])"
    by (auto simp: clean_filename_eq)
  have 4: "\<not> starts_with_digit f \<longrightarrow> clean_filename f = Inr []"
    by (simp add: clean_filename_eq)
  have 5: "clean_filename ''No Number Here.mp3'' = Inr []"
    "clean_filename ''12.pdf'' = Inr []" "clean_filename ''7 (live).mp3'' = Inr []"
    by code_simp+
  from 1 2 3 4 5 show ?thesis by (simp add: max_str_digits_def)
qed

theorem clean_filename_discard_witness:
  "(\<exists>k. clean_filename ''12 Song.pdf'' = Inr k)
   \<and> clean_filename (replicate 5000 (CHR ''7'') @ '' x.pdf'') = Inl ValueError
   \<and> clean_filename ''Song 12.pdf'' = Inr []
   \<and> clean_filename ''12 (x).pdf'' = Inr []"
proof -
  have a: "length (takeWhile isdigit ''12 Song.pdf'') \<le> max_str_digits"
    by (simp add: isdigit_def max_str_digits_def)
  have d7: "isdigit (CHR ''7'')" by (simp add: isdigit_def)
  have b: "max_str_digits < length (takeWhile isdigit (replicate 5000 (CHR ''7'') @ '' x.pdf''))"
    by (simp only: takeWhile_replicate_digit[OF d7] length_replicate max_str_digits_def)
  have c: "\<not> starts_with_digit ''Song 12.pdf''"
    by (simp add: starts_with_digit_def isdigit_def)
  have d: "length (takeWhile isdigit ''12 (x).pdf'') \<le> max_str_digits \<and> clean_name ''12 (x).pdf'' = []"
    by code_simp
  from a have "\<exists>k. clean_filename ''12 Song.pdf'' = Inr k"
    using clean_filename_discard [of "''12 Song.pdf''"] by blast
  moreover from b have "clean_filename (replicate 5000 (CHR ''7'') @ '' x.pdf'') = Inl ValueError"
    using clean_filename_discard [of "replicate 5000 (CHR ''7'') @ '' x.pdf''"] by blast
  moreover from c have "clean_filename ''Song 12.pdf'' = Inr []"
    using clean_filename_discard [of "''Song 12.pdf''"] by blast
  moreover from d have "clean_filename ''12 (x).pdf'' = Inr []"
    using clean_filename_discard [of "''12 (x).pdf''"] by blast
  ultimately show ?thesis by blast
qed

text \<open>
  Claim C6 as the specification states it fails: on a filename of 4301 digits and
  \<open> x.pdf\<close> behind them, \<open>clean_filename\<close> raises.
\<close>

theorem clean_filename_raises_counterexample:
  "clean_filename (replicate 4301 (CHR ''1'') @ '' x.pdf'') = Inl ValueError"
proof -
  have d: "isdigit (CHR ''1'')" by (simp add: isdigit_def)
  have s: "starts_with_digit (replicate 4301 (CHR ''1'') @ '' x.pdf'')"
    using d by (simp add: starts_with_digit_replicate)
  have l: "max_str_digits < length (takeWhile isdigit (replicate 4301 (CHR ''1'') @ '' x.pdf''))"
    by (simp only: takeWhile_replicate_digit[OF d] length_replicate max_str_digits_def)
  show ?thesis
    unfolding clean_filename_eq[of "replicate 4301 (CHR ''1'') @ '' x.pdf''"] using s l by simp
qed

text \<open>
  Claim C5. When \<open>create_file_matrix\<close> returns a matrix for a listing (a dict, so
  that no folder name occurs twice), the row labels are the union of the folders'
  canonical key sets without the empty key, in sorted order, and the columns behind
  the leading \<open>Number\<close> column are the names of the folders, in sorted order; a
  top-level leaf file gives no column.
\<close>

theorem create_file_matrix_labels:
  assumes "is_dict L" and "create_file_matrix L = Inr M"
  shows "index M = sorted_list_of_set (all_keys L - {[]})
       \<and> set (index M) = all_keys L - {[]} \<and> sorted (index M) \<and> distinct (index M)
       \<and> map fst (columns M) = ''Number'' # sorted_list_of_set (folder_names L)
       \<and> set (tl (map fst (columns M))) = folder_names L
       \<and> sorted (tl (map fst (columns M))) \<and> distinct (tl (map fst (columns M)))"
proof -
  obtain cd where cd: "clean_folders L [] = Inr cd"
    using create_file_matrix_cleaned[OF assms(2)] by blast
  have "index M = sorted_list_of_set (all_filenames cd)"
    using create_file_matrix_struct(1)[OF cd assms(2)] .
  then have i: "index M = sorted_list_of_set (all_keys L - {[]})"
    by (simp only: all_filenames_dict[OF assms(1) cd])
  have fin: "finite (all_keys L - {[]})" by (simp add: finite_all_keys)
  have c: "map fst (columns M) = ''Number'' # sorted_list_of_set (folder_names L)"
    using create_file_matrix_columns(1)[OF assms(2)] .
  show ?thesis
    unfolding i c using fin finite_folder_names[of L] by simp
qed

theorem create_file_matrix_labels_witness:
  "index \<lparr>index = [''1 song'', ''2 other''],
          columns = [(''Number'', [CInt 1, CInt 2]), (''A'', [CStr ''yes'', CStr ''yes'']),
                     (''B'', [CStr ''yes'', CStr ''no''])]\<rparr>
     = sorted_list_of_set (all_keys [(''B'', Folder [(''1_song_alto.pdf'', DriveFile)]),
          (''A'', Folder [(''1 Song.mp3'', DriveFile), (''2 Other.mp3'', DriveFile), (''x.txt'', DriveFile)]),
          (''readme'', DriveFile)] - {[]})
   \<and> [''A'', ''B''] = sorted_list_of_set (folder_names [(''B'', Folder [(''1_song_alto.pdf'', DriveFile)]),
          (''A'', Folder [(''1 Song.mp3'', DriveFile), (''2 Other.mp3'', DriveFile), (''x.txt'', DriveFile)]),
          (''readme'', DriveFile)])"
proof -
  let ?L = "[(''B'', Folder [(''1_song_alto.pdf'', DriveFile)]),
          (''A'', Folder [(''1 Song.mp3'', DriveFile), (''2 Other.mp3'', DriveFile), (''x.txt'', DriveFile)]),
          (''readme'', DriveFile)]"
  let ?M = "\<lparr>index = [''1 song'', ''2 other''],
          columns = [(''Number'', [CInt 1, CInt 2]), (''A'', [CStr ''yes'', CStr ''yes'']),
                     (''B'', [CStr ''yes'', CStr ''no''])]\<rparr>"
  have d: "is_dict ?L" by (simp add: is_dict_def)
  have m: "create_file_matrix ?L = Inr ?M" by code_simp
  from create_file_matrix_labels[OF d m] show ?thesis by simp
qed

text \<open>
  Claim C8, as the code has it. When \<open>create_file_matrix\<close> returns a matrix for a
  listing, it has at most as many rows as there are distinct entry names in the
  folders of the listing, the titles of subfolders counted with the file names: the
  builder cleans every entry name of a folder.
\<close>

theorem create_file_matrix_row_count:
  assumes "create_file_matrix L = Inr M"
  shows "length (index M) \<le> card (all_raw_names L)"
proof -
  obtain cd where cd: "clean_folders L [] = Inr cd"
    and i: "index M = sorted_list_of_set (all_filenames cd)"
    using create_file_matrix_index[OF assms] by blast
  have "length (index M) = card (all_filenames cd)"
    unfolding i by (simp add: finite_all_filenames)
  also have "\<dots> \<le> card (all_keys L)"
    using all_filenames_subset[OF cd] finite_all_keys[of L]
    by (intro card_mono) auto
  also have "\<dots> \<le> card ((\<lambda>f. projr (clean_filename f)) ` all_raw_names L)"
    using all_keys_image by (rule card_mono[rotated]) (simp add: finite_all_raw_names)
  also have "\<dots> \<le> card (all_raw_names L)"
    by (rule card_image_le) (rule finite_all_raw_names)
  finally show ?thesis .
qed

theorem create_file_matrix_row_count_witness:
  "length [''1 song'', ''3 sub''] \<le> card (all_raw_names [(''A'', Folder [(''1 Song.mp3'', DriveFile),
      (''x.txt'', DriveFile), (''3 Sub'', Folder [(''9 Deep.pdf'', DriveFile)])]),
      (''B'', Folder [(''1_song_alto.pdf'', DriveFile)])])"
proof -
  let ?L = "[(''A'', Folder [(''1 Song.mp3'', DriveFile),
      (''x.txt'', DriveFile), (''3 Sub'', Folder [(''9 Deep.pdf'', DriveFile)])]),
      (''B'', Folder [(''1_song_alto.pdf'', DriveFile)])]"
  let ?M = "\<lparr>index = [''1 song'', ''3 sub''],
          columns = [(''Number'', [CInt 1, CInt 3]), (''A'', [CStr ''yes'', CStr ''yes'']),
                     (''B'', [CStr ''yes'', CStr ''no''])]\<rparr>"
  have m: "create_file_matrix ?L = Inr ?M" by code_simp
  from create_file_matrix_row_count[OF m] show ?thesis by simp
qed

text \<open>
  Claim C8 as the specification states it fails: a folder that holds nothing but a
  subfolder titled \<open>1 Sub\<close> gives the row \<open>1 sub\<close>, and the listing has no file.
\<close>

theorem create_file_matrix_row_count_counterexample:
  "create_file_matrix [(''A'', Folder [(''1 Sub'', Folder [])])]
     = Inr \<lparr>index = [''1 sub''], columns = [(''Number'', [CInt 1]), (''A'', [CStr ''yes''])]\<rparr>
   \<and> all_file_names [(''A'', Folder [(''1 Sub'', Folder [])])] = {}
   \<and> \<not> length [''1 sub''] \<le> card (all_file_names [(''A'', Folder [(''1 Sub'', Folder [])])])"
proof -
  have m: "create_file_matrix [(''A'', Folder [(''1 Sub'', Folder [])])]
     = Inr \<lparr>index = [''1 sub''], columns = [(''Number'', [CInt 1]), (''A'', [CStr ''yes''])]\<rparr>"
    by code_simp
  have e: "all_file_names [(''A'', Folder [(''1 Sub'', Folder [])])] = {}"
    by (simp add: all_file_names_def folders_def file_names_def)
  from m e show ?thesis by simp
qed

text \<open>
  Claim C4, as the code has it. When \<open>create_file_matrix\<close> returns a matrix for a
  listing (a dict, so that no folder name occurs twice), the cell of a folder's column
  in a row is \<open>yes\<close> if the row's key is in the folder's key set and \<open>no\<close> if it is not,
  and the column holds as many \<open>yes\<close> cells as the names of the folder's entries, the
  titles of its subfolders among them, produce distinct non-empty canonical keys.
\<close>

theorem create_file_matrix_cells:
  assumes "is_dict L" and "create_file_matrix L = Inr M" and "(f, files) \<in> folders L"
  shows "\<exists>cells. column M f = Some cells
           \<and> cells = map (\<lambda>row. CStr (if row \<in> folder_keys files then ''yes'' else ''no'')) (index M)
           \<and> length (filter (\<lambda>c. c = CStr ''yes'') cells) = card (folder_keys files - {[]})"
proof -
  let ?cells = "map (\<lambda>row. CStr (if row \<in> folder_keys files then ''yes'' else ''no'')) (index M)"
  have col: "column M f = Some ?cells"
    using assms by (rule create_file_matrix_column)
  obtain cd where cd: "clean_folders L [] = Inr cd"
    using create_file_matrix_cleaned[OF assms(2)] by blast
  have "index M = sorted_list_of_set (all_filenames cd)"
    using create_file_matrix_struct(1)[OF cd assms(2)] .
  then have i: "index M = sorted_list_of_set (all_keys L - {[]})"
    by (simp only: all_filenames_dict[OF assms(1) cd])
  have fin: "finite (all_keys L - {[]})" by (simp add: finite_all_keys)
  have dist: "distinct (index M)" and s: "set (index M) = all_keys L - {[]}"
    unfolding i using fin by simp_all
  have sub: "folder_keys files \<subseteq> all_keys L"
    using assms(3) by (force simp: all_keys_def)
  have "length (filter (\<lambda>c. c = CStr ''yes'') ?cells) = card (set (index M) \<inter> folder_keys files)"
    using dist by (rule count_yes)
  also have "set (index M) \<inter> folder_keys files = folder_keys files - {[]}"
    unfolding s using sub by auto
  finally show ?thesis using col by simp
qed

theorem create_file_matrix_cells_witness:
  "column \<lparr>index = [''1 song'', ''2 other'', ''3 sub''],
          columns = [(''Number'', [CInt 1, CInt 2, CInt 3]),
                     (''A'', [CStr ''yes'', CStr ''yes'', CStr ''no'']),
                     (''B'', [CStr ''yes'', CStr ''no'', CStr ''yes''])]\<rparr> ''B''
     = Some (map (\<lambda>row. CStr (if row \<in> folder_keys [(''1_song_alto.pdf'', DriveFile),
                                 (''notes.txt'', DriveFile), (''3 Sub'', Folder [])]
                               then ''yes'' else ''no'')) [''1 song'', ''2 other'', ''3 sub''])
   \<and> card (folder_keys [(''1_song_alto.pdf'', DriveFile), (''notes.txt'', DriveFile),
                          (''3 Sub'', Folder [])] - {[]}) = 2"
proof -
  let ?L = "[(''B'', Folder [(''1_song_alto.pdf'', DriveFile), (''notes.txt'', DriveFile),
                             (''3 Sub'', Folder [])]),
          (''A'', Folder [(''1 Song.mp3'', DriveFile), (''2 Other.mp3'', DriveFile)]),
          (''readme'', DriveFile)]"
  let ?M = "\<lparr>index = [''1 song'', ''2 other'', ''3 sub''],
          columns = [(''Number'', [CInt 1, CInt 2, CInt 3]),
                     (''A'', [CStr ''yes'', CStr ''yes'', CStr ''no'']),
                     (''B'', [CStr ''yes'', CStr ''no'', CStr ''yes''])]\<rparr>"
  have d: "is_dict ?L" by (simp add: is_dict_def)
  have m: "create_file_matrix ?L = Inr ?M" by code_simp
  have f: "(''B'', [(''1_song_alto.pdf'', DriveFile), (''notes.txt'', DriveFile), (''3 Sub'', Folder [])])
            \<in> folders ?L"
    by (simp add: folders_def)
  have c: "column ?M ''B'' = Some [CStr ''yes'', CStr ''no'', CStr ''yes'']" by (simp add: column_def)
  from create_file_matrix_cells[OF d m f] c show ?thesis by auto
qed

text \<open>
  Claim C4 as the specification states it fails: folder \<open>A\<close> holds two files with the one
  key \<open>1 song\<close> and a subfolder titled \<open>3 Sub\<close>; its column has two \<open>yes\<close> cells, and its
  files produce one key.
\<close>

theorem create_file_matrix_cells_counterexample:
  "create_file_matrix
     [(''A'', Folder [(''1 Song.mp3'', DriveFile), (''1_song_alto.pdf'', DriveFile), (''3 Sub'', Folder [])])]
     = Inr \<lparr>index = [''1 song'', ''3 sub''],
            columns = [(''Number'', [CInt 1, CInt 3]), (''A'', [CStr ''yes'', CStr ''yes''])]\<rparr>
   \<and> length (filter (\<lambda>c. c = CStr ''yes'') [CStr ''yes'', CStr ''yes'']) = 2
   \<and> card (file_keys [(''1 Song.mp3'', DriveFile), (''1_song_alto.pdf'', DriveFile), (''3 Sub'', Folder [])]
            - {[]}) = 1"
proof -
  let ?files = "[(''1 Song.mp3'', DriveFile), (''1_song_alto.pdf'', DriveFile), (''3 Sub'', Folder [])]"
  have m: "create_file_matrix [(''A'', Folder ?files)]
     = Inr \<lparr>index = [''1 song'', ''3 sub''],
            columns = [(''Number'', [CInt 1, CInt 3]), (''A'', [CStr ''yes'', CStr ''yes''])]\<rparr>"
    by code_simp
  have n: "file_names ?files = {''1 Song.mp3'', ''1_song_alto.pdf''}"
    by (auto simp: file_names_def)
  have k: "clean_filename ''1 Song.mp3'' = Inr ''1 song''"
    "clean_filename ''1_song_alto.pdf'' = Inr ''1 song''"
    by code_simp+
  have "file_keys ?files = {''1 song''}"
    unfolding file_keys_def n using k by auto
  with m show ?thesis by simp
qed

text \<open>
  Claim C9. On a matrix that has a column labelled
  \<open>VJE MISCELLANEOUS PARTS (VOCAL, VIBRAPHONE, ETC.)\<close>, \<open>filter_matrix\<close> returns the matrix
  without that column: the row labels, the other columns, their order and their cells
  are those of the input, and where the labels are distinct exactly one column is gone.
\<close>

theorem filter_matrix_removes_column:
  assumes "misc_parts \<in> set (map fst (columns df))"
  shows "\<exists>df'. filter_matrix df = Inr df'
           \<and> index df' = index df
           \<and> columns df' = filter (\<lambda>p. fst p \<noteq> misc_parts) (columns df)
           \<and> misc_parts \<notin> set (map fst (columns df'))
           \<and> (\<forall>p. fst p \<noteq> misc_parts \<longrightarrow> (p \<in> set (columns df') \<longleftrightarrow> p \<in> set (columns df)))
           \<and> (distinct (map fst (columns df)) \<longrightarrow> length (columns df') + 1 = length (columns df))"
proof -
  let ?df' = "df\<lparr>columns := filter (\<lambda>p. fst p \<noteq> misc_parts) (columns df)\<rparr>"
  have r: "filter_matrix df = Inr ?df'"
    using assms by (simp add: filter_matrix_def drop_column_def)
  have l: "distinct (map fst (columns df)) \<longrightarrow> length (columns ?df') + 1 = length (columns df)"
    using assms length_filter_key[of "columns df" misc_parts] by simp
  have "misc_parts \<notin> set (map fst (columns ?df'))" by auto
  with r l show ?thesis by auto
qed

theorem filter_matrix_removes_column_witness:
  "filter_matrix \<lparr>index = [''1 song''],
       columns = [(''Number'', [CInt 1]), (''A'', [CStr ''yes'']), (misc_parts, [CStr ''no''])]\<rparr>
   = Inr \<lparr>index = [''1 song''], columns = [(''Number'', [CInt 1]), (''A'', [CStr ''yes''])]\<rparr>"
proof -
  let ?df = "\<lparr>index = [''1 song''],
       columns = [(''Number'', [CInt 1]), (''A'', [CStr ''yes'']), (misc_parts, [CStr ''no''])]\<rparr>"
  have n: "''Number'' \<noteq> misc_parts" "''A'' \<noteq> misc_parts" by (simp_all add: misc_parts_def)
  have h: "misc_parts \<in> set (map fst (columns ?df))" by simp
  from filter_matrix_removes_column[OF h] obtain df' where
    r: "filter_matrix ?df = Inr df'" and i: "index df' = index ?df"
    and c: "columns df' = filter (\<lambda>p. fst p \<noteq> misc_parts) (columns ?df)"
    by blast
  from i c n have "df' = \<lparr>index = [''1 song''], columns = [(''Number'', [CInt 1]), (''A'', [CStr ''yes''])]\<rparr>"
    by simp
  with r show ?thesis by simp
qed

text \<open>
  Claim C10. On a matrix without a column labelled
  \<open>VJE MISCELLANEOUS PARTS (VOCAL, VIBRAPHONE, ETC.)\<close>, \<open>filter_matrix\<close> raises \<open>KeyError\<close>
  and returns nothing; the matrix built for a listing without a folder of that name is
  such a matrix, so \<open>create_file_matrix(file_list).pipe(filter_matrix)\<close> ends in an
  error for it.
\<close>

theorem filter_matrix_missing_column:
  "(misc_parts \<notin> set (map fst (columns df)) \<longrightarrow> filter_matrix df = Inl KeyError)
   \<and> (misc_parts \<notin> folder_names L \<longrightarrow>
        (\<forall>M. create_file_matrix L = Inr M \<longrightarrow> filter_matrix M = Inl KeyError)
        \<and> (\<exists>e. pipeline L = Inl e))"
proof -
  have 1: "misc_parts \<notin> set (map fst (columns df)) \<longrightarrow> filter_matrix df = Inl KeyError"
    by (simp add: filter_matrix_def drop_column_def)
  have 2: "filter_matrix M = Inl KeyError"
    if "misc_parts \<notin> folder_names L" "create_file_matrix L = Inr M" for M
  proof -
    have "map fst (columns M) = ''Number'' # sorted_list_of_set (folder_names L)"
      using that(2) by (rule create_file_matrix_columns(1))
    moreover have "misc_parts \<noteq> ''Number''" by (simp add: misc_parts_def)
    ultimately have "misc_parts \<notin> set (map fst (columns M))"
      using that(1) finite_folder_names[of L] by simp
    then show ?thesis by (simp add: filter_matrix_def drop_column_def)
  qed
  have 3: "\<exists>e. pipeline L = Inl e" if "misc_parts \<notin> folder_names L"
  proof (cases "create_file_matrix L")
    case (Inl e)
    then show ?thesis by (simp add: pipeline_def)
  next
    case (Inr M)
    with 2[OF that Inr] show ?thesis by (simp add: pipeline_def)
  qed
  from 1 2 3 show ?thesis by blast
qed

theorem filter_matrix_missing_column_witness:
  "filter_matrix \<lparr>index = [''1 song''], columns = [(''Number'', [CInt 1]), (''A'', [CStr ''yes''])]\<rparr>
     = Inl KeyError
   \<and> (\<exists>e. pipeline [(''A'', Folder [(''1 Song.mp3'', DriveFile)])] = Inl e)"
proof -
  let ?L = "[(''A'', Folder [(''1 Song.mp3'', DriveFile)])]"
  let ?M = "\<lparr>index = [''1 song''], columns = [(''Number'', [CInt 1]), (''A'', [CStr ''yes''])]\<rparr>"
  have a: "misc_parts \<notin> set (map fst (columns ?M))" by (simp add: misc_parts_def)
  have b: "misc_parts \<notin> folder_names ?L" by (simp add: folder_names_def folders_def misc_parts_def)
  from filter_matrix_missing_column[of ?M ?L] a b show ?thesis by blast
qed

text \<open>
  Claim C3, as the code has it. Every non-empty string that \<open>clean_filename\<close> returns is
  the decimal text of \<open>N\<close>, one blank and a name that does not begin with whitespace,
  where \<open>N\<close> is the value of the leading digits of the filename. So, once the names of
  a listing are cleaned, the first blank-separated token of every row key is that
  decimal text and \<open>int\<close> parses it to \<open>N\<close>. The \<open>Number\<close> column is a 64-bit integer
  column: \<open>astype(int)\<close> stores \<open>N\<close> when \<open>N\<close> is below \<open>2^63\<close> and raises
  \<open>OverflowError\<close> when it is not. So the matrix is built when every \<open>N\<close> is below
  \<open>2^63\<close> and no folder is named \<open>Number\<close>; one larger \<open>N\<close> ends the building in
  \<open>OverflowError\<close>, and a folder named \<open>Number\<close> ends it in \<open>ValueError\<close>. The names of
  a listing are cleaned when none of them starts with more than 4300 digits.
\<close>

theorem clean_filename_number_prefix:
  "(clean_filename f = Inr k \<and> k \<noteq> [] \<longrightarrow>
      (\<exists>N name. k = decimal N @ '' '' @ name \<and> N = digits_val (takeWhile isdigit f) \<and> 0 \<le> N
         \<and> decimal N \<noteq> [] \<and> (\<forall>c\<in>set (decimal N). isdigit c)
         \<and> name \<noteq> [] \<and> \<not> isspace (hd name)
         \<and> first_token k = decimal N \<and> py_int (first_token k) = Inr N))
   \<and> (clean_folders L [] = Inr cd \<and> row \<in> all_filenames cd \<longrightarrow>
      (\<exists>N. 0 \<le> N \<and> py_int (first_token row) = Inr N
         \<and> (N < 2 ^ 63 \<longrightarrow> astype_int (first_token row) = Inr N)
         \<and> (2 ^ 63 \<le> N \<longrightarrow> astype_int (first_token row) = Inl OverflowError)))
   \<and> (clean_folders L [] = Inr cd \<and> ''Number'' \<notin> folder_names L
        \<and> (\<forall>r\<in>all_filenames cd. \<forall>N. py_int (first_token r) = Inr N \<longrightarrow> N < 2 ^ 63) \<longrightarrow>
      (\<exists>M. create_file_matrix L = Inr M
         \<and> column M ''Number'' = Some (map (\<lambda>r. CInt (projr (py_int (first_token r)))) (index M))))
   \<and> (clean_folders L [] = Inr cd
        \<and> (\<exists>r\<in>all_filenames cd. \<exists>N. py_int (first_token r) = Inr N \<and> 2 ^ 63 \<le> N) \<longrightarrow>
      create_file_matrix L = Inl OverflowError)
   \<and> (clean_folders L [] = Inr cd \<and> ''Number'' \<in> folder_names L
        \<and> (\<forall>r\<in>all_filenames cd. \<forall>N. py_int (first_token r) = Inr N \<longrightarrow> N < 2 ^ 63) \<longrightarrow>
      create_file_matrix L = Inl ValueError)
   \<and> ((\<forall>g\<in>all_raw_names L. length (takeWhile isdigit g) \<le> max_str_digits) \<longrightarrow>
      (\<exists>cd'. clean_folders L [] = Inr cd'))"
proof -
  have form: "\<exists>N name. k = decimal N @ '' '' @ name \<and> N = digits_val (takeWhile isdigit f) \<and> 0 \<le> N
         \<and> decimal N \<noteq> [] \<and> (\<forall>c\<in>set (decimal N). isdigit c)
         \<and> name \<noteq> [] \<and> \<not> isspace (hd name)
         \<and> first_token k = decimal N \<and> py_int (first_token k) = Inr N
         \<and> (N < 2 ^ 63 \<longrightarrow> astype_int (first_token k) = Inr N)
         \<and> (2 ^ 63 \<le> N \<longrightarrow> astype_int (first_token k) = Inl OverflowError)"
    if "clean_filename f = Inr k" "k \<noteq> []" for f k
  proof -
    let ?N = "digits_val (takeWhile isdigit f)"
    have nn: "0 \<le> ?N" by (rule leading_number_nonneg)
    have k: "k = decimal ?N @ '' '' @ clean_name f" and ne: "clean_name f \<noteq> []"
      and sd: "starts_with_digit f" and len: "length (takeWhile isdigit f) \<le> max_str_digits"
      using clean_filename_form[OF that] by simp_all
    have dl: "length (decimal ?N) \<le> max_str_digits"
      using leading_number_length[OF sd] len by simp
    show ?thesis
      using k ne nn clean_name_ends(1)[OF ne] decimal_digits(1,2)[OF nn]
        key_first_token[OF nn dl, of "clean_name f"]
      by blast
  qed
  have rows: "\<exists>N. 0 \<le> N \<and> py_int (first_token row) = Inr N
         \<and> (N < 2 ^ 63 \<longrightarrow> astype_int (first_token row) = Inr N)
         \<and> (2 ^ 63 \<le> N \<longrightarrow> astype_int (first_token row) = Inl OverflowError)"
    if "clean_folders L [] = Inr cd" "row \<in> all_filenames cd" for row
  proof -
    from surviving_key[OF that] obtain f where "clean_filename f = Inr row" "row \<noteq> []" by blast
    from form[OF this] show ?thesis by blast
  qed
  have build: "\<exists>M. create_file_matrix L = Inr M
         \<and> column M ''Number'' = Some (map (\<lambda>r. CInt (projr (py_int (first_token r)))) (index M))"
    if cd: "clean_folders L [] = Inr cd" and nn: "''Number'' \<notin> folder_names L"
      and small: "\<forall>r\<in>all_filenames cd. \<forall>N. py_int (first_token r) = Inr N \<longrightarrow> N < 2 ^ 63"
  proof -
    have ok: "astype_int (first_token r) = py_int (first_token r) \<and> (\<exists>N. astype_int (first_token r) = Inr N)"
      if "r \<in> all_filenames cd" for r
      using rows[OF cd that] small that by auto
    then have "\<forall>r\<in>all_filenames cd. \<exists>N. astype_int (first_token r) = Inr N" by blast
    from create_file_matrix_returns[OF cd this nn] obtain M where
      M: "create_file_matrix L = Inr M"
      and c: "column M ''Number'' = Some (map (\<lambda>row. CInt (projr (astype_int (first_token row)))) (index M))"
      by blast
    have "index M = sorted_list_of_set (all_filenames cd)"
      using create_file_matrix_struct(1)[OF cd M] .
    then have "set (index M) = all_filenames cd" by (simp add: finite_all_filenames)
    with ok have "map (\<lambda>row. CInt (projr (astype_int (first_token row)))) (index M)
        = map (\<lambda>r. CInt (projr (py_int (first_token r)))) (index M)"
      by simp
    with M c show ?thesis by simp
  qed
  have over: "create_file_matrix L = Inl OverflowError"
    if cd: "clean_folders L [] = Inr cd"
      and big: "\<exists>r\<in>all_filenames cd. \<exists>N. py_int (first_token r) = Inr N \<and> 2 ^ 63 \<le> N"
  proof (rule create_file_matrix_overflow[OF cd])
    show "\<forall>row\<in>all_filenames cd.
        (\<exists>N. astype_int (first_token row) = Inr N) \<or> astype_int (first_token row) = Inl OverflowError"
    proof
      fix row assume "row \<in> all_filenames cd"
      from rows[OF cd this] obtain N where
        "N < 2 ^ 63 \<longrightarrow> astype_int (first_token row) = Inr N"
        "2 ^ 63 \<le> N \<longrightarrow> astype_int (first_token row) = Inl OverflowError" by blast
      then show "(\<exists>N. astype_int (first_token row) = Inr N) \<or> astype_int (first_token row) = Inl OverflowError"
        by (cases "N < 2 ^ 63") auto
    qed
    from big obtain r N where r: "r \<in> all_filenames cd" and p: "py_int (first_token r) = Inr N"
      and b: "2 ^ 63 \<le> N" by blast
    from rows[OF cd r] p b have "astype_int (first_token r) = Inl OverflowError" by auto
    with r show "\<exists>row\<in>all_filenames cd. astype_int (first_token row) = Inl OverflowError" by blast
  qed
  have numf: "create_file_matrix L = Inl ValueError"
    if cd: "clean_folders L [] = Inr cd" and nn: "''Number'' \<in> folder_names L"
      and small: "\<forall>r\<in>all_filenames cd. \<forall>N. py_int (first_token r) = Inr N \<longrightarrow> N < 2 ^ 63"
  proof -
    have "\<exists>N. astype_int (first_token r) = Inr N" if "r \<in> all_filenames cd" for r
      using rows[OF cd that] small that by auto
    then have "\<forall>r\<in>all_filenames cd. \<exists>N. astype_int (first_token r) = Inr N" by blast
    from create_file_matrix_number_folder[OF cd this nn] show ?thesis .
  qed
  have first: "\<exists>cd'. clean_folders L [] = Inr cd'"
    if "\<forall>g\<in>all_raw_names L. length (takeWhile isdigit g) \<le> max_str_digits"
    using that by (intro clean_folders_returns) (simp add: clean_filename_returns)
  from form rows build over numf first show ?thesis by blast
qed

theorem clean_filename_number_prefix_witness:
  "(\<exists>N name. ''12 song name'' = decimal N @ '' '' @ name \<and> N = digits_val (takeWhile isdigit ''12_Song_Name_Alto.pdf'')
       \<and> py_int (first_token ''12 song name'') = Inr N)
   \<and> (\<exists>M. create_file_matrix [(''A'', Folder [(''12_Song_Name_Alto.pdf'', DriveFile)])] = Inr M
         \<and> column M ''Number'' = Some (map (\<lambda>r. CInt (projr (py_int (first_token r)))) (index M)))
   \<and> create_file_matrix [(''A'', Folder [(''9223372036854775808 x.pdf'', DriveFile)])] = Inl OverflowError
   \<and> create_file_matrix [(''Number'', Folder [(''12_Song_Name_Alto.pdf'', DriveFile)])] = Inl ValueError"
proof -
  let ?f = "''12_Song_Name_Alto.pdf''" and ?k = "''12 song name''"
  let ?L = "[(''A'', Folder [(''12_Song_Name_Alto.pdf'', DriveFile)])]"
  let ?cd = "[(''A'', [(''12 song name'', DriveFile)])]"
  have a: "clean_filename ?f = Inr ?k" by code_simp
  have b: "?k \<noteq> []" by simp
  have c: "clean_folders ?L [] = Inr ?cd" by code_simp
  have d: "''Number'' \<notin> folder_names ?L" by (simp add: folder_names_def folders_def)
  have e: "all_filenames ?cd = {?k}" by (simp add: all_filenames_def)
  have p: "py_int (first_token ?k) = Inr 12" by code_simp
  have s: "\<forall>r\<in>all_filenames ?cd. \<forall>N. py_int (first_token r) = Inr N \<longrightarrow> N < 2 ^ 63"
    unfolding e using p by simp
  let ?B = "[(''A'', Folder [(''9223372036854775808 x.pdf'', DriveFile)])]"
  let ?bcd = "[(''A'', [(''9223372036854775808 x'', DriveFile)])]"
  have c2: "clean_folders ?B [] = Inr ?bcd" by code_simp
  have p2: "py_int (first_token ''9223372036854775808 x'') = Inr 9223372036854775808" by code_simp
  have big: "\<exists>r\<in>all_filenames ?bcd. \<exists>N. py_int (first_token r) = Inr N \<and> 2 ^ 63 \<le> N"
    using p2 by (simp add: all_filenames_def)
  let ?F = "[(''Number'', Folder [(''12_Song_Name_Alto.pdf'', DriveFile)])]"
  let ?fcd = "[(''Number'', [(''12 song name'', DriveFile)])]"
  have c3: "clean_folders ?F [] = Inr ?fcd" by code_simp
  have e3: "all_filenames ?fcd = {?k}" by (simp add: all_filenames_def)
  have d3: "''Number'' \<in> folder_names ?F" by (simp add: folder_names_def folders_def)
  have s3: "\<forall>r\<in>all_filenames ?fcd. \<forall>N. py_int (first_token r) = Inr N \<longrightarrow> N < 2 ^ 63"
    unfolding e3 using p by simp
  from clean_filename_number_prefix[of ?f ?k ?L ?cd ?k] a b c d s
  have 1: "(\<exists>N name. ''12 song name'' = decimal N @ '' '' @ name \<and> N = digits_val (takeWhile isdigit ''12_Song_Name_Alto.pdf'')
       \<and> py_int (first_token ''12 song name'') = Inr N)
   \<and> (\<exists>M. create_file_matrix ?L = Inr M
         \<and> column M ''Number'' = Some (map (\<lambda>r. CInt (projr (py_int (first_token r)))) (index M)))"
    by blast
  from clean_filename_number_prefix[of ?f ?k ?B ?bcd ?k] c2 big
  have 2: "create_file_matrix ?B = Inl OverflowError" by blast
  from clean_filename_number_prefix[of ?f ?k ?F ?fcd ?k] c3 d3 s3
  have 3: "create_file_matrix ?F = Inl ValueError" by blast
  from 1 2 3 show ?thesis by blast
qed

text \<open>
  Claim C3 as the specification states it fails for a key whose number does not fit
  the column: the file \<open>9223372036854775808 x.pdf\<close> survives with the key
  \<open>9223372036854775808 x\<close>, and building the \<open>Number\<close> column for it raises.
\<close>

theorem number_column_counterexample:
  "clean_filename ''9223372036854775808 x.pdf'' = Inr ''9223372036854775808 x''
   \<and> astype_int (first_token ''9223372036854775808 x'') = Inl OverflowError
   \<and> create_file_matrix [(''A'', Folder [(''9223372036854775808 x.pdf'', DriveFile)])] = Inl OverflowError"
  by code_simp

text \<open>
  Claim C2, as the code has it. A canonical key \<open>x\<close> is reproduced by cleaning \<open>x.pdf\<close>
  when the instrument rule finds nothing to strip in the name part of \<open>x\<close> and \<open>x\<close> holds
  neither a hyphen nor an opening parenthesis.
\<close>

theorem clean_filename_idempotent:
  assumes "clean_filename f = Inr x" and "x \<noteq> []"
    and "re_sub pat_suffix (\<lambda>m. []) (clean_name f) = clean_name f"
    and "CHR ''-'' \<notin> set x" and "CHR ''('' \<notin> set x"
  shows "clean_filename (x @ ''.pdf'') = Inr x"
proof -
  let ?N = "digits_val (takeWhile isdigit f)"
  let ?d = "decimal ?N"
  let ?n = "clean_name f"
  have nn: "0 \<le> ?N" by (rule leading_number_nonneg)
  have x: "x = ?d @ '' '' @ ?n" and ne: "?n \<noteq> []"
    and sd: "starts_with_digit f" and len: "length (takeWhile isdigit f) \<le> max_str_digits"
    using clean_filename_form[OF assms(1,2)] by simp_all
  note d = decimal_digits[OF nn]
  have dl: "length ?d \<le> max_str_digits"
    using leading_number_length[OF sd] len by simp
  from assms(4,5) have dp: "CHR ''-'' \<notin> set ?n" "CHR ''('' \<notin> set ?n"
    unfolding x by simp_all
  have name: "clean_name (x @ ''.pdf'') = ?n"
    unfolding x using d(1,2) ne assms(3) dp by (rule clean_name_key)
  have tw: "takeWhile isdigit (x @ ''.pdf'') = ?d"
    unfolding x using takeWhile_digits_key[OF d(2), of "?n @ ''.pdf''"] by simp
  have sw: "starts_with_digit (x @ ''.pdf'')"
    unfolding x using d(1,2) by (cases ?d) (auto simp: starts_with_digit_def)
  show ?thesis
    unfolding clean_filename_eq[of "x @ ''.pdf''"] name tw d(3)
    using sw dl ne x by simp
qed

theorem clean_filename_idempotent_witness:
  "clean_filename (''12 song name'' @ ''.pdf'') = Inr ''12 song name''"
proof -
  let ?f = "''12_Song_Name_Alto.pdf''"
  have a: "clean_filename ?f = Inr ''12 song name''" by code_simp
  have b: "''12 song name'' \<noteq> []" by simp
  have c: "re_sub pat_suffix (\<lambda>m. []) (clean_name ?f) = clean_name ?f" by code_simp
  have d: "CHR ''-'' \<notin> set ''12 song name''" "CHR ''('' \<notin> set ''12 song name''" by simp_all
  from clean_filename_idempotent[OF a b c d] show ?thesis .
qed

text \<open>
  Claim C2 as the specification states it fails. Splitting \<open>MyBass\<close> at the capital
  puts a blank in front of \<open>bass\<close>, and the instrument rule strips it from the key
  \<open>1 my bass\<close>; a hyphen kept behind a line break is cut from the key \<open>1 a- b\<close>.
\<close>

theorem clean_filename_idempotent_counterexample:
  "clean_filename ''1 MyBass.pdf'' = Inr ''1 my bass''
   \<and> clean_filename (''1 my bass'' @ ''.pdf'') = Inr ''1 my''
   \<and> clean_filename (''1a-'' @ [CHR 0x0A] @ ''b.pdf'') = Inr ''1 a- b''
   \<and> clean_filename (''1 a- b'' @ ''.pdf'') = Inr ''1 a''"
  by code_simp

end
